theory Spec2Isabelle
  imports Complex_Main "HOL-Library.Multiset" "HOL-Library.Log_Nat"
begin

section \<open>Errors raised by the ingest worker\<close>

text \<open>
  The Python exceptions that the modelled code can raise. \<open>ClientError\<close> is botocore's
  error of a failed \<open>put_object\<close>; \<open>ValueError\<close> is the failed unpacking of the date
  fields of a timestamp; \<open>ZeroDivisionError\<close> is the division by a zero refill rate;
  \<open>OverflowError\<close> is the conversion of an integer too large for a float.
\<close>

datatype py_error = ClientError | ValueError | ZeroDivisionError | OverflowError

section \<open>Python floats\<close>

text \<open>
  The token bucket computes with Python floats, which are IEEE 754 binary64 values. A
  float is a finite value, here the rational number it stands for, or one of the two
  infinities, or NaN. The two zeros are not told apart: they compare equal and nothing
  below depends on the sign of a zero.
\<close>

datatype float64 = Finite rat | PInf | NInf | NaN

text \<open>
  Rounding to nearest, ties to even. \<open>round_even\<close> rounds a rational to an integer;
  \<open>ilog2 x\<close> is the binary exponent of a positive \<open>x\<close>, found from the bit lengths of its
  numerator and denominator; \<open>expo x\<close> is the exponent of the last place of the 53-bit
  significand of \<open>x\<close>, not below that of the subnormal numbers; \<open>round_grid\<close> rounds to a
  multiple of that last place, and \<open>round64\<close> turns a result of magnitude \<open>2^1024\<close> or
  more into an infinity.
\<close>

definition half_even :: "int \<Rightarrow> rat \<Rightarrow> int" where
  "half_even f d =
     (if d < 1 / 2 then f
      else if 1 / 2 < d then f + 1
      else if even f then f else f + 1)"

definition frac_from :: "int \<Rightarrow> rat \<Rightarrow> int" where
  "frac_from f x = half_even f (x - of_int f)"

definition round_even :: "rat \<Rightarrow> int" where
  "round_even x = frac_from \<lfloor>x\<rfloor> x"

definition ilog2_near :: "int \<Rightarrow> rat \<Rightarrow> int" where
  "ilog2_near k x = (if 2 powi k \<le> x then k else k - 1)"

definition ilog2 :: "rat \<Rightarrow> int" where
  "ilog2 x = (case quotient_of x of (p, q) \<Rightarrow> ilog2_near (bitlen p - bitlen q) x)"

definition expo :: "rat \<Rightarrow> int" where
  "expo x = max (ilog2 \<bar>x\<bar> - 52) (- 1074)"

definition to_step :: "rat \<Rightarrow> rat \<Rightarrow> rat" where
  "to_step x u = of_int (round_even (x / u)) * u"

definition to_grid :: "int \<Rightarrow> rat \<Rightarrow> rat" where
  "to_grid e x = to_step x (2 powi e)"

definition round_grid :: "rat \<Rightarrow> rat" where
  "round_grid x = (if x = 0 then 0 else to_grid (expo x) x)"

definition overflow :: "rat \<Rightarrow> float64" where
  "overflow y =
     (if 2 ^ 1024 \<le> y then PInf
      else if y \<le> - (2 ^ 1024) then NInf
      else Finite y)"

definition round64 :: "rat \<Rightarrow> float64" where
  "round64 x = overflow (round_grid x)"

text \<open>
  The arithmetic and the comparisons of floats: the exact result, rounded, with the
  conventions of IEEE 754 for infinities and NaN. Division is Python's: a zero divisor
  raises. \<open>py_min a b\<close> is \<open>min(a, b)\<close>, which keeps \<open>a\<close> unless \<open>b < a\<close>; \<open>py_float\<close> is
  \<open>float(x)\<close> for an integer or a finite float \<open>x\<close>.
\<close>

fun fneg :: "float64 \<Rightarrow> float64" where
  "fneg (Finite x) = Finite (- x)"
| "fneg PInf = NInf"
| "fneg NInf = PInf"
| "fneg NaN = NaN"

fun fadd :: "float64 \<Rightarrow> float64 \<Rightarrow> float64" where
  "fadd (Finite x) (Finite y) = round64 (x + y)"
| "fadd NaN b = NaN"
| "fadd a NaN = NaN"
| "fadd PInf NInf = NaN"
| "fadd NInf PInf = NaN"
| "fadd PInf b = PInf"
| "fadd a PInf = PInf"
| "fadd NInf b = NInf"
| "fadd a NInf = NInf"

definition fsub :: "float64 \<Rightarrow> float64 \<Rightarrow> float64" where
  "fsub a b = fadd a (fneg b)"

definition signed_inf :: "bool \<Rightarrow> float64" where
  "signed_inf positive = (if positive then PInf else NInf)"

fun fmul :: "float64 \<Rightarrow> float64 \<Rightarrow> float64" where
  "fmul (Finite x) (Finite y) = round64 (x * y)"
| "fmul NaN b = NaN"
| "fmul a NaN = NaN"
| "fmul PInf (Finite y) = (if y = 0 then NaN else signed_inf (0 < y))"
| "fmul NInf (Finite y) = (if y = 0 then NaN else signed_inf (y < 0))"
| "fmul (Finite x) PInf = (if x = 0 then NaN else signed_inf (0 < x))"
| "fmul (Finite x) NInf = (if x = 0 then NaN else signed_inf (x < 0))"
| "fmul PInf PInf = PInf"
| "fmul NInf NInf = PInf"
| "fmul PInf NInf = NInf"
| "fmul NInf PInf = NInf"

fun fdiv :: "float64 \<Rightarrow> float64 \<Rightarrow> py_error + float64" where
  "fdiv a (Finite y) =
     (if y = 0 then Inl ZeroDivisionError
      else (case a of
              Finite x \<Rightarrow> Inr (round64 (x / y))
            | PInf \<Rightarrow> Inr (signed_inf (0 < y))
            | NInf \<Rightarrow> Inr (signed_inf (y < 0))
            | NaN \<Rightarrow> Inr NaN))"
| "fdiv NaN b = Inr NaN"
| "fdiv a NaN = Inr NaN"
| "fdiv (Finite x) b = Inr (Finite 0)"
| "fdiv a b = Inr NaN"

fun fle :: "float64 \<Rightarrow> float64 \<Rightarrow> bool" where
  "fle NaN b = False"
| "fle a NaN = False"
| "fle NInf b = True"
| "fle a PInf = True"
| "fle (Finite x) (Finite y) = (x \<le> y)"
| "fle PInf b = False"
| "fle a NInf = False"

definition fge :: "float64 \<Rightarrow> float64 \<Rightarrow> bool" where
  "fge a b = fle b a"

fun flt :: "float64 \<Rightarrow> float64 \<Rightarrow> bool" where
  "flt NaN b = False"
| "flt a NaN = False"
| "flt a b = (\<not> fle b a)"

definition py_min :: "float64 \<Rightarrow> float64 \<Rightarrow> float64" where
  "py_min a b = (if flt b a then b else a)"

definition py_float :: "rat \<Rightarrow> py_error + float64" where
  "py_float x = (case round64 x of Finite y \<Rightarrow> Inr (Finite y) | _ \<Rightarrow> Inl OverflowError)"

section \<open>Token bucket\<close>

text \<open>\<open>AsyncTokenBucket\<close>: the four fields of the class, all floats.\<close>

record token_bucket =
  rate :: float64
  capacity :: float64
  tokens :: float64
  last_tb :: float64

text \<open>
  \<open>__init__\<close>: rate and capacity go through \<open>float\<close>, the bucket starts full, and \<open>now\<close>
  is the reading of the monotonic clock.
\<close>

definition AsyncTokenBucket :: "rat \<Rightarrow> rat \<Rightarrow> float64 \<Rightarrow> py_error + token_bucket" where
  "AsyncTokenBucket rate_per_sec cap now =
     (case py_float rate_per_sec of
        Inl err \<Rightarrow> Inl err
      | Inr r \<Rightarrow>
          (case py_float cap of
             Inl err \<Rightarrow> Inl err
           | Inr c \<Rightarrow> Inr \<lparr>rate = r, capacity = c, tokens = c, last_tb = now\<rparr>))"

text \<open>The lazy refill at the head of the critical section of \<open>consume\<close>.\<close>

definition refill :: "float64 \<Rightarrow> token_bucket \<Rightarrow> token_bucket" where
  "refill now b =
     (let elapsed = fsub now (last_tb b) in
      b\<lparr>tokens := py_min (capacity b) (fadd (tokens b) (fmul elapsed (rate b))),
        last_tb := now\<rparr>)"

datatype consume_step = Granted | Wait float64

text \<open>
  One pass through the body of \<open>while True\<close> in \<open>consume\<close>, which runs under the bucket's
  lock: refill, then either debit and return, or compute the time to wait. The division
  by \<open>self.rate\<close> raises when the rate is zero.
\<close>

definition consume_check ::
  "float64 \<Rightarrow> float64 \<Rightarrow> token_bucket \<Rightarrow> (py_error + consume_step) \<times> token_bucket" where
  "consume_check amount now b =
     (let b1 = refill now b in
      if fge (tokens b1) amount then (Inr Granted, b1\<lparr>tokens := fsub (tokens b1) amount\<rparr>)
      else (let needed = fsub amount (tokens b1) in
            case fdiv needed (rate b1) of
              Inl err \<Rightarrow> (Inl err, b1)
            | Inr wait \<Rightarrow> (Inr (Wait wait), b1)))"

text \<open>
  \<open>consume\<close>: the loop, driven by the clock readings of its successive passes. \<open>None\<close>
  means that the caller is still asleep when the readings end.
\<close>

fun consume ::
  "float64 \<Rightarrow> float64 list \<Rightarrow> token_bucket \<Rightarrow> (py_error + unit) option \<times> token_bucket" where
  "consume amount [] b = (None, b)"
| "consume amount (now # nows) b =
     (case consume_check amount now b of
        (Inr Granted, b') \<Rightarrow> (Some (Inr ()), b')
      | (Inr (Wait w), b') \<Rightarrow> consume amount nows b'
      | (Inl e, b') \<Rightarrow> (Some (Inl e), b'))"

text \<open>
  The token counts a bucket goes through when unit-demand passes run at the clock
  readings \<open>nows\<close>, whichever tasks they belong to: after each refill and after each
  debit (or refusal).
\<close>

fun tokens_trace :: "float64 list \<Rightarrow> token_bucket \<Rightarrow> float64 list" where
  "tokens_trace [] b = []"
| "tokens_trace (now # nows) b =
     tokens (refill now b) # tokens (snd (consume_check (Finite 1) now b))
       # tokens_trace nows (snd (consume_check (Finite 1) now b))"

text \<open>\<open>0 <= tokens <= capacity\<close>, as Python compares floats.\<close>

definition in_range :: "float64 \<Rightarrow> float64 \<Rightarrow> bool" where
  "in_range cap t \<longleftrightarrow> fle (Finite 0) t \<and> fle t cap"

text \<open>
  A well-formed bucket: rate, capacity, tokens and clock are finite, the rate is not
  negative, the capacity is a float below the overflow threshold, and the tokens lie
  between zero and the capacity. \<open>not_neg\<close> holds of the floats that are not below zero.
\<close>

definition bucket_ok :: "token_bucket \<Rightarrow> bool" where
  "bucket_ok b =
     (case (rate b, capacity b, tokens b, last_tb b) of
        (Finite r, Finite c, Finite t, Finite l) \<Rightarrow>
          0 \<le> r \<and> round_grid c = c \<and> c < 2 ^ 1024 \<and> 0 \<le> t \<and> t \<le> c
      | _ \<Rightarrow> False)"

fun not_neg :: "float64 \<Rightarrow> bool" where
  "not_neg (Finite y) = (0 \<le> y)"
| "not_neg NInf = False"
| "not_neg v = True"

section \<open>Strings\<close>

text \<open>
  The pieces of Python's \<open>str\<close> that the worker uses. Strings are byte strings here; the
  model covers ASCII text, on which \<open>lower\<close>, \<open>replace\<close>, \<open>split\<close> and \<open>in\<close> act bytewise.
\<close>

definition lower_char :: "char \<Rightarrow> char" where
  "lower_char c =
     (case map_of (zip ''ABCDEFGHIJKLMNOPQRSTUVWXYZ'' ''abcdefghijklmnopqrstuvwxyz'') c of
        Some d \<Rightarrow> d
      | None \<Rightarrow> c)"

definition lower :: "string \<Rightarrow> string" where
  "lower s = map lower_char s"

fun starts_with :: "string \<Rightarrow> string \<Rightarrow> bool" where
  "starts_with [] s = True"
| "starts_with (p # ps) [] = False"
| "starts_with (p # ps) (c # cs) = (p = c \<and> starts_with ps cs)"

text \<open>\<open>contains needle s\<close> is Python's \<open>needle in s\<close>.\<close>

fun contains :: "string \<Rightarrow> string \<Rightarrow> bool" where
  "contains needle [] = (needle = [])"
| "contains needle (c # cs) = (starts_with needle (c # cs) \<or> contains needle cs)"

text \<open>\<open>s.replace(a, b)\<close> for one-character \<open>a\<close> and \<open>b\<close>.\<close>

definition replace_char :: "char \<Rightarrow> char \<Rightarrow> string \<Rightarrow> string" where
  "replace_char a b s = map (\<lambda>c. if c = a then b else c) s"

text \<open>\<open>s.split(sep)\<close> for a one-character separator: the result is never empty.\<close>

fun split_char :: "char \<Rightarrow> string \<Rightarrow> string list" where
  "split_char sep [] = [[]]"
| "split_char sep (c # cs) =
     (if c = sep then [] # split_char sep cs
      else (case split_char sep cs of
              [] \<Rightarrow> [[c]]
            | p # ps \<Rightarrow> (c # p) # ps))"

text \<open>\<open>str(n)\<close> and the \<open>{n}\<close> of an f-string, for an integer.\<close>

fun str_nat :: "nat \<Rightarrow> string" where
  "str_nat n =
     (if n < 10 then [''0123456789'' ! n]
      else str_nat (n div 10) @ [''0123456789'' ! (n mod 10)])"

definition str_int :: "int \<Rightarrow> string" where
  "str_int i = (if i < 0 then CHR ''-'' # str_nat (nat (- i)) else str_nat (nat i))"

section \<open>Object keys\<close>

text \<open>
  \<open>yyyy, mm, dd = ingest_ts_iso.split("T")[0].split("-")\<close>: the unpacking raises
  \<open>ValueError\<close> unless the date part has exactly three fields.
\<close>

definition date_fields :: "string \<Rightarrow> py_error + string \<times> string \<times> string" where
  "date_fields ingest_ts_iso =
     (case split_char CHR ''T'' ingest_ts_iso of
        [] \<Rightarrow> Inl ValueError
      | d # _ \<Rightarrow>
          (case split_char CHR ''-'' d of
             [yyyy, mm, dd] \<Rightarrow> Inr (yyyy, mm, dd)
           | _ \<Rightarrow> Inl ValueError))"

definition sym_key :: "string \<Rightarrow> string" where
  "sym_key symbol = replace_char CHR ''/'' CHR ''_'' (replace_char CHR '':'' CHR ''_'' symbol)"

text \<open>The defaults of the environment variables \<open>RAW_PREFIX\<close> and \<open>DLQ_PREFIX\<close>.\<close>

definition RAW_PREFIX_default :: string where
  "RAW_PREFIX_default = ''ohlcv/raw/''"

definition DLQ_PREFIX_default :: string where
  "DLQ_PREFIX_default = ''ohlcv/errors/''"

definition s3_key_for_raw :: "string \<Rightarrow> string \<Rightarrow> string \<Rightarrow> py_error + string" where
  "s3_key_for_raw RAW_PREFIX symbol ingest_ts_iso =
     (case date_fields ingest_ts_iso of
        Inl e \<Rightarrow> Inl e
      | Inr (yyyy, mm, dd) \<Rightarrow>
          Inr (RAW_PREFIX @ ''symbol='' @ sym_key symbol @ ''/exchange=NSE/year='' @ yyyy
               @ ''/month='' @ mm @ ''/day='' @ dd @ ''/ingest-'' @ ingest_ts_iso @ ''.json''))"

definition s3_key_for_dlq :: "string \<Rightarrow> string \<Rightarrow> string \<Rightarrow> py_error + string" where
  "s3_key_for_dlq DLQ_PREFIX symbol ingest_ts_iso =
     (case date_fields ingest_ts_iso of
        Inl e \<Rightarrow> Inl e
      | Inr (yyyy, mm, dd) \<Rightarrow>
          Inr (DLQ_PREFIX @ ''symbol='' @ sym_key symbol @ ''/year='' @ yyyy
               @ ''/month='' @ mm @ ''/day/'' @ dd @ ''/failed-'' @ ingest_ts_iso @ ''.json''))"

section \<open>Credentials and the world around one fetch\<close>

text \<open>
  \<open>CREDENTIALS\<close>: the four entries of the shared dictionary; \<open>None\<close> is an entry that is
  absent or null. \<open>truthy\<close> is Python's truth of such a value: present and not empty.
  Values are taken to be strings, as the secret's documentation has them.
\<close>

record credentials =
  access_token :: "string option"
  client_id :: "string option"
  refresh_token :: "string option"
  app_secret :: "string option"

definition truthy :: "string option \<Rightarrow> bool" where
  "truthy v = (case v of None \<Rightarrow> False | Some s \<Rightarrow> s \<noteq> [])"

text \<open>The JSON body of the refresh request.\<close>

record refresh_payload =
  grant_type :: string
  appIdHash :: string
  refresh_token_sent :: string

text \<open>
  What the refresh endpoint can answer: the call raises (a transport error or a timeout), or
  a response arrives with a status and a body. The body is not JSON (\<open>resp.json()\<close> raises),
  JSON that is not an object, or an object with its \<open>s\<close> and \<open>access_token\<close> entries.
\<close>

datatype refresh_body =
    Not_json
  | Not_dict
  | Dict_body "string option" "string option"

datatype post_outcome = Post_raises | Post_response int refresh_body

text \<open>
  What the history endpoint can answer to one attempt. The body of a 200 response is
  either an object whose \<open>s\<close> is \<open>"error"\<close>, with its \<open>message\<close> entry, or anything else
  (candles, or text that is not JSON, which the worker wraps as \<open>raw_text\<close>): a payload.
  The second field of a response is the \<open>Retry-After\<close> header as \<open>float\<close> reads it,
  \<open>None\<close> when absent or unreadable.
\<close>

datatype hist_body = Payload | Inline_error "string option"

datatype get_outcome =
    Get_timeout
  | Get_raises
  | Get_response int "rat option" hist_body

text \<open>The dead-letter object: the payload and the \<open>dlq_reason\<close> of its metadata.\<close>

record dlq_record =
  dl_symbol :: string
  failed_at :: string
  attempts :: int
  note_dl :: string
  params_sent :: "(string \<times> string) list"
  dlq_reason :: string

datatype sleep_kind = Settle | Hint rat | Backoff int

text \<open>
  Everything one fetch does to the outside, in order. \<open>Http_get\<close> carries the attempt
  number and the \<open>Authorization\<close> header; the two puts carry the key and whether the
  store accepted the object.
\<close>

datatype event =
    Consume_min
  | Consume_sec
  | Http_get int string
  | Http_post refresh_payload
  | Update_secret string
  | Sleep sleep_kind
  | Put_raw string bool
  | Put_dlq string dlq_record bool
  | Metric string

text \<open>
  The configuration and the behaviour of the outside world. \<open>http_get\<close> answers the
  request of attempt \<open>n\<close> (an attempt issues at most one), \<open>http_post\<close> answers the
  \<open>n\<close>-th refresh exchange of the process, \<open>s3_raw_ok\<close> tells whether the raw put of
  attempt \<open>n\<close> succeeds, \<open>s3_dlq_ok\<close> whether the dead-letter put does. \<open>sha256_hex\<close> is
  \<open>hashlib.sha256(...).hexdigest()\<close>, and \<open>now_iso\<close> the clock as \<open>now_iso_utc\<close> prints it.
\<close>

record env =
  MAX_ATTEMPTS :: int
  RAW_PREFIX :: string
  DLQ_PREFIX :: string
  http_get :: "int \<Rightarrow> get_outcome"
  http_post :: "nat \<Rightarrow> post_outcome"
  s3_raw_ok :: "int \<Rightarrow> bool"
  s3_dlq_ok :: bool
  sha256_hex :: "string \<Rightarrow> string"
  now_iso :: string

text \<open>
  The mutable state: the shared credentials, the number of refresh exchanges issued so
  far, and the trace of effects. The fetch of one symbol is followed on its own; the
  tasks of other symbols write to the credentials only through a refresh, whose callers
  are followed together further down.
\<close>

record world =
  creds :: credentials
  posts :: nat
  trace :: "event list"

definition emit :: "event list \<Rightarrow> world \<Rightarrow> world" where
  "emit es w = w\<lparr>trace := trace w @ es\<rparr>"

text \<open>
  The dead-letter puts of a trace (key, object, and whether the store accepted it), and
  the refresh exchanges of a trace.
\<close>

fun dlq_writes :: "event list \<Rightarrow> (string \<times> dlq_record \<times> bool) list" where
  "dlq_writes [] = []"
| "dlq_writes (Put_dlq k r ok # es) = (k, r, ok) # dlq_writes es"
| "dlq_writes (_ # es) = dlq_writes es"

fun exchanges :: "event list \<Rightarrow> refresh_payload list" where
  "exchanges [] = []"
| "exchanges (Http_post p # es) = p # exchanges es"
| "exchanges (_ # es) = exchanges es"

section \<open>Token refresh\<close>

text \<open>
  The head of \<open>refresh_access_token_async\<close>: the request body, or \<open>None\<close> when
  \<open>client_id\<close>, \<open>refresh_token\<close> or \<open>app_secret\<close> is missing.
\<close>

definition refresh_request :: "(string \<Rightarrow> string) \<Rightarrow> credentials \<Rightarrow> refresh_payload option" where
  "refresh_request sha c =
     (case (client_id c, refresh_token c, app_secret c) of
        (Some cid, Some rt, Some sec) \<Rightarrow>
          (if cid \<noteq> [] \<and> rt \<noteq> [] \<and> sec \<noteq> []
           then Some \<lparr>grant_type = ''refresh_token'',
                      appIdHash = sha (cid @ '':'' @ sec),
                      refresh_token_sent = rt\<rparr>
           else None)
      | _ \<Rightarrow> None)"

text \<open>
  The tail: what the answer of the endpoint yields. Every exception inside the \<open>try\<close> is
  caught and gives \<open>None\<close>.
\<close>

definition refresh_result :: "post_outcome \<Rightarrow> string option" where
  "refresh_result out =
     (case out of
        Post_raises \<Rightarrow> None
      | Post_response status body \<Rightarrow>
          (if status \<noteq> 200 then None
           else (case body of
                   Dict_body s tok \<Rightarrow> (if s = Some ''ok'' \<and> truthy tok then tok else None)
                 | _ \<Rightarrow> None)))"

text \<open>
  \<open>refresh_access_token_async\<close>, from the acquisition of \<open>refresh_lock\<close> to its release:
  the request goes out (\<open>refresh_send\<close>), and its answer decides the result and the update
  of the shared credentials (\<open>refresh_receive\<close>). \<open>update_secret_access_token\<close> catches its
  own failures, so it shows only as an event.
\<close>

definition refresh_send :: "refresh_payload \<Rightarrow> world \<Rightarrow> world" where
  "refresh_send payload w = emit [Http_post payload] (w\<lparr>posts := posts w + 1\<rparr>)"

definition refresh_receive :: "env \<Rightarrow> nat \<Rightarrow> world \<Rightarrow> string option \<times> world" where
  "refresh_receive e n w =
     (case refresh_result (http_post e n) of
        None \<Rightarrow> (None, w)
      | Some new_token \<Rightarrow>
          (Some new_token,
           emit [Update_secret new_token]
             (w\<lparr>creds := (creds w)\<lparr>access_token := Some new_token\<rparr>\<rparr>)))"

definition refresh_access_token_async :: "env \<Rightarrow> world \<Rightarrow> string option \<times> world" where
  "refresh_access_token_async e w =
     (case refresh_request (sha256_hex e) (creds w) of
        None \<Rightarrow> (None, w)
      | Some payload \<Rightarrow> refresh_receive e (posts w) (refresh_send payload w))"

section \<open>Concurrent callers of the refresh\<close>

text \<open>
  Several tasks of the event loop call \<open>refresh_access_token_async\<close>. A task is about to
  enter \<open>async with refresh_lock\<close> (\<open>Calling\<close>), holds the lock while its own exchange
  numbered \<open>n\<close> is awaited (\<open>In_flight n\<close>), or has returned (\<open>Done x r\<close>, with its result
  \<open>r\<close> and the number \<open>x\<close> of the exchange it made, if it made one). The event loop runs
  one task at a time up to its next \<open>await\<close>: a caller that finds the lock held stays
  where it is; one that finds it free either returns at once (credentials missing) or
  sends its request; a task in flight gets its answer, updates the shared credentials
  and releases the lock.
\<close>

datatype phase = Calling | In_flight nat | Done "nat option" "string option"

record sys =
  phases :: "phase list"
  shared :: world

fun in_flight :: "phase \<Rightarrow> bool" where
  "in_flight (In_flight n) = True"
| "in_flight _ = False"

definition lock_held :: "phase list \<Rightarrow> bool" where
  "lock_held ps = list_ex in_flight ps"

definition step_task :: "env \<Rightarrow> nat \<Rightarrow> sys \<Rightarrow> sys" where
  "step_task e i s =
     (if i < length (phases s) then
        (case phases s ! i of
           Calling \<Rightarrow>
             (if lock_held (phases s) then s
              else (case refresh_request (sha256_hex e) (creds (shared s)) of
                      None \<Rightarrow> s\<lparr>phases := (phases s)[i := Done None None]\<rparr>
                    | Some payload \<Rightarrow>
                        s\<lparr>phases := (phases s)[i := In_flight (posts (shared s))],
                          shared := refresh_send payload (shared s)\<rparr>))
         | In_flight n \<Rightarrow>
             (case refresh_receive e n (shared s) of
                (r, w') \<Rightarrow> s\<lparr>phases := (phases s)[i := Done (Some n) r], shared := w'\<rparr>)
         | Done x r \<Rightarrow> s)
      else s)"

text \<open>A schedule is the order in which the event loop resumes the tasks.\<close>

definition run_schedule :: "env \<Rightarrow> nat list \<Rightarrow> sys \<Rightarrow> sys" where
  "run_schedule e sched s = fold (step_task e) sched s"

definition callers :: "nat \<Rightarrow> credentials \<Rightarrow> sys" where
  "callers k c = \<lparr>phases = replicate k Calling, shared = \<lparr>creds = c, posts = 0, trace = []\<rparr>\<rparr>"

text \<open>
  What every reachable state of the callers satisfies when the refresh credentials are
  complete: at most one exchange is in flight, and the exchanges issued so far are as
  many as the callers that got past the lock.
\<close>

definition refresh_inv :: "env \<Rightarrow> sys \<Rightarrow> bool" where
  "refresh_inv e s \<longleftrightarrow>
     length (filter in_flight (phases s)) \<le> 1 \<and>
     length (exchanges (trace (shared s))) = length (filter (\<lambda>p. p \<noteq> Calling) (phases s)) \<and>
     refresh_request (sha256_hex e) (creds (shared s)) \<noteq> None"

text \<open>
  The exchange that a caller has made, and what ties a caller to it: the exchange has
  been issued, and a caller that has returned holds what the answer to that exchange
  yields.
\<close>

fun exchange_of :: "phase \<Rightarrow> nat option" where
  "exchange_of Calling = None"
| "exchange_of (In_flight n) = Some n"
| "exchange_of (Done x r) = x"

fun own_ok :: "env \<Rightarrow> nat \<Rightarrow> phase \<Rightarrow> bool" where
  "own_ok e p Calling = True"
| "own_ok e p (In_flight n) = (n < p)"
| "own_ok e p (Done None r) = False"
| "own_ok e p (Done (Some n) r) = (n < p \<and> r = refresh_result (http_post e n))"

definition own_inv :: "env \<Rightarrow> sys \<Rightarrow> bool" where
  "own_inv e s \<longleftrightarrow>
     posts (shared s) = length (exchanges (trace (shared s))) \<and>
     (\<forall>i < length (phases s). own_ok e (posts (shared s)) (phases s ! i)) \<and>
     (\<forall>i < length (phases s). \<forall>j < length (phases s). \<forall>n.
        exchange_of (phases s ! i) = Some n \<and> exchange_of (phases s ! j) = Some n \<longrightarrow> i = j)"

section \<open>The fetch worker\<close>

text \<open>\<open>IngestResult\<close>: the tuple that \<open>fetch_one\<close> returns and \<open>run_once\<close> collects.\<close>

record ingest_result =
  symbol :: "string option"
  succeeded :: bool
  attempts_used :: int
  http_status :: "int option"
  failure_note :: "string option"

datatype step = Continue | Break | Return ingest_result

definition params :: "string \<Rightarrow> string \<Rightarrow> (string \<times> string) list" where
  "params symb date_str =
     [(''symbol'', symb), (''resolution'', ''1''), (''date_format'', ''1''),
      (''range_from'', date_str), (''range_to'', date_str), (''cont_flag'', ''1'')]"

text \<open>\<open>wait = retry_after if retry_after else backoff\<close>: a zero hint is falsy.\<close>

definition wait_for :: "rat option \<Rightarrow> int \<Rightarrow> sleep_kind" where
  "wait_for retry_after attempt =
     (case retry_after of
        None \<Rightarrow> Backoff attempt
      | Some r \<Rightarrow> if r \<noteq> 0 then Hint r else Backoff attempt)"

definition auth_hint :: "string \<Rightarrow> bool" where
  "auth_hint msg \<longleftrightarrow> contains ''auth'' msg \<or> contains ''token'' msg \<or> contains ''authenticate'' msg"

text \<open>The classification of a response, inside \<open>async with session.get(...)\<close>.\<close>

definition on_response ::
  "env \<Rightarrow> string \<Rightarrow> string \<Rightarrow> int \<Rightarrow> int \<Rightarrow> rat option \<Rightarrow> hist_body \<Rightarrow> world \<Rightarrow> step \<times> world" where
  "on_response e symb ingest_ts_iso attempt status retry_after body w =
     (if status = 200 then
        (case body of
           Inline_error message \<Rightarrow>
             (let msg = lower (case message of None \<Rightarrow> [] | Some m \<Rightarrow> m) in
              if auth_hint msg \<and> truthy (refresh_token (creds w)) then
                (case refresh_access_token_async e w of
                   (new_token, w') \<Rightarrow>
                     if truthy new_token then (Continue, emit [Sleep Settle] w')
                     else (Break, w'))
              else (Continue, emit [Sleep (Backoff attempt)] w))
         | Payload \<Rightarrow>
             (case s3_key_for_raw (RAW_PREFIX e) symb ingest_ts_iso of
                Inl err \<Rightarrow> (Continue, emit [Sleep (Backoff attempt)] w)
              | Inr key \<Rightarrow>
                  if s3_raw_ok e attempt then
                    (Return \<lparr>symbol = Some symb, succeeded = True, attempts_used = attempt,
                             http_status = Some status, failure_note = None\<rparr>,
                     emit [Put_raw key True, Metric ''IngestSuccess''] w)
                  else (Continue, emit [Put_raw key False, Sleep (Backoff attempt)] w)))
      else if status = 429 then (Continue, emit [Sleep (wait_for retry_after attempt)] w)
      else if 500 \<le> status \<and> status < 600 then
        (Continue, emit [Sleep (wait_for retry_after attempt)] w)
      else if status = 401 \<or> status = 403 then
        (if truthy (refresh_token (creds w)) then
           (case refresh_access_token_async e w of
              (new_token, w') \<Rightarrow>
                if truthy new_token then (Continue, emit [Sleep Settle] w')
                else (Break, w'))
         else (Break, w))
      else (Continue, emit [Sleep (Backoff attempt)] w))"

text \<open>How an f-string prints an entry of the credentials.\<close>

definition fmt :: "string option \<Rightarrow> string" where
  "fmt v = (case v of None \<Rightarrow> ''None'' | Some s \<Rightarrow> s)"

text \<open>The \<open>Authorization\<close> header: \<open>client_id:access_token\<close>.\<close>

definition authorization :: "credentials \<Rightarrow> string" where
  "authorization c = fmt (client_id c) @ '':'' @ fmt (access_token c)"

text \<open>
  The request of one attempt with the two \<open>except\<close> clauses around it: a timeout and any
  other exception both sleep the backoff of the attempt and continue.
\<close>

definition request :: "env \<Rightarrow> string \<Rightarrow> string \<Rightarrow> int \<Rightarrow> world \<Rightarrow> step \<times> world" where
  "request e symb ingest_ts_iso attempt w =
     (let w1 = emit [Http_get attempt (authorization (creds w))] w in
      case http_get e attempt of
        Get_timeout \<Rightarrow> (Continue, emit [Sleep (Backoff attempt)] w1)
      | Get_raises \<Rightarrow> (Continue, emit [Sleep (Backoff attempt)] w1)
      | Get_response status retry_after body \<Rightarrow>
          on_response e symb ingest_ts_iso attempt status retry_after body w1)"

text \<open>\<open>if not client_id or not access_token\<close>.\<close>

definition missing_credentials :: "credentials \<Rightarrow> bool" where
  "missing_credentials c \<longleftrightarrow> \<not> truthy (client_id c) \<or> \<not> truthy (access_token c)"

text \<open>
  The body of the \<open>while\<close> loop for the attempt numbered \<open>attempt\<close> (already incremented):
  the two rate budgets, then the credentials, refreshed once if one is missing, then the
  request. The buckets are built with positive rates, so consuming only delays.
\<close>

definition attempt_body :: "env \<Rightarrow> string \<Rightarrow> string \<Rightarrow> int \<Rightarrow> world \<Rightarrow> step \<times> world" where
  "attempt_body e symb ingest_ts_iso attempt w0 =
     (let w = emit [Consume_min, Consume_sec] w0 in
      if missing_credentials (creds w) then
        (let w' = (if truthy (refresh_token (creds w))
                   then snd (refresh_access_token_async e w) else w) in
         if missing_credentials (creds w') then
           (Return \<lparr>symbol = Some symb, succeeded = False, attempts_used = attempt,
                    http_status = None, failure_note = Some ''missing_credentials''\<rparr>, w')
         else request e symb ingest_ts_iso attempt w')
      else request e symb ingest_ts_iso attempt w)"

datatype loop_exit = Returned ingest_result | Fell_through int

text \<open>
  \<open>while attempt < MAX_ATTEMPTS\<close>: the loop ends with a \<open>return\<close> from its body, or falls
  through to the dead-letter code by a \<open>break\<close> or because the attempts are used up; it
  then carries the value of \<open>attempt\<close>.
\<close>

function fetch_loop :: "env \<Rightarrow> string \<Rightarrow> string \<Rightarrow> int \<Rightarrow> world \<Rightarrow> loop_exit \<times> world" where
  "fetch_loop e symb ingest_ts_iso attempt w =
     (if attempt < MAX_ATTEMPTS e then
        (case attempt_body e symb ingest_ts_iso (attempt + 1) w of
           (Continue, w') \<Rightarrow> fetch_loop e symb ingest_ts_iso (attempt + 1) w'
         | (Break, w') \<Rightarrow> (Fell_through (attempt + 1), w')
         | (Return r, w') \<Rightarrow> (Returned r, w'))
      else (Fell_through attempt, w))"
  by pat_completeness auto
termination
  by (relation "measure (\<lambda>(e, symb, ts, attempt, w). nat (MAX_ATTEMPTS e - attempt))") auto

declare fetch_loop.simps [simp del]

definition err_info :: "env \<Rightarrow> string" where
  "err_info e = ''Exhausted '' @ str_int (MAX_ATTEMPTS e) @ '' attempts''"

text \<open>
  The code after the loop. The key computation and the put are outside every \<open>try\<close>: their
  exceptions leave \<open>fetch_one\<close>.
\<close>

definition dead_letter ::
  "env \<Rightarrow> string \<Rightarrow> string \<Rightarrow> string \<Rightarrow> int \<Rightarrow> world \<Rightarrow> (py_error + ingest_result) \<times> world" where
  "dead_letter e symb ingest_ts_iso date_str attempt w =
     (let w1 = emit [Metric ''IngestFailed''] w in
      case s3_key_for_dlq (DLQ_PREFIX e) symb ingest_ts_iso of
        Inl err \<Rightarrow> (Inl err, w1)
      | Inr dlq_key \<Rightarrow>
          (let payload = \<lparr>dl_symbol = symb, failed_at = now_iso e, attempts = attempt,
                          note_dl = err_info e, params_sent = params symb date_str,
                          dlq_reason = err_info e\<rparr> in
           if s3_dlq_ok e then
             (Inr \<lparr>symbol = Some symb, succeeded = False, attempts_used = attempt,
                   http_status = None, failure_note = Some (err_info e)\<rparr>,
              emit [Put_dlq dlq_key payload True] w1)
           else (Inl ClientError, emit [Put_dlq dlq_key payload False] w1)))"

definition fetch_one ::
  "env \<Rightarrow> string \<Rightarrow> string \<Rightarrow> string \<Rightarrow> world \<Rightarrow> (py_error + ingest_result) \<times> world" where
  "fetch_one e symb ingest_ts_iso date_str w =
     (case fetch_loop e symb ingest_ts_iso 0 w of
        (Returned r, w') \<Rightarrow> (Inr r, w')
      | (Fell_through attempt, w') \<Rightarrow> dead_letter e symb ingest_ts_iso date_str attempt w')"

text \<open>The answer of the history endpoint is a response with the given status.\<close>

definition has_status :: "int \<Rightarrow> get_outcome \<Rightarrow> bool" where
  "has_status s out = (case out of Get_response status ra body \<Rightarrow> status = s | _ \<Rightarrow> False)"

section \<open>Concrete worlds\<close>

text \<open>
  A configuration with the defaults of the source (five attempts, the default prefixes), a
  history endpoint that answers 200 with candles, a refresh endpoint that cannot be
  reached, and a store that accepts every object. The hash is a stand-in that wraps its
  argument. Single fields are overridden where a scenario needs it.
\<close>

definition env0 :: env where
  "env0 =
     \<lparr>MAX_ATTEMPTS = 5, RAW_PREFIX = RAW_PREFIX_default, DLQ_PREFIX = DLQ_PREFIX_default,
      http_get = (\<lambda>n. Get_response 200 None Payload),
      http_post = (\<lambda>n. Post_raises),
      s3_raw_ok = (\<lambda>n. True), s3_dlq_ok = True,
      sha256_hex = (\<lambda>s. ''sha256('' @ s @ '')''),
      now_iso = ''2024-01-15T09:31:07Z''\<rparr>"

definition creds_full :: credentials where
  "creds_full =
     \<lparr>access_token = Some ''tok0'', client_id = Some ''APP-100'',
      refresh_token = Some ''rt0'', app_secret = Some ''s3cr3t''\<rparr>"

definition start :: "credentials \<Rightarrow> world" where
  "start c = \<lparr>creds = c, posts = 0, trace = []\<rparr>"

text \<open>Scenarios: the endpoint always answers 500; it answers 429 twice and then 200.\<close>

definition env_500 :: env where
  "env_500 = env0\<lparr>http_get := (\<lambda>n. Get_response 500 None Payload)\<rparr>"

definition env_429 :: env where
  "env_429 =
     env0\<lparr>http_get := (\<lambda>n. if n < 3 then Get_response 429 (Some 2) Payload
                            else Get_response 200 None Payload)\<rparr>"

text \<open>
  Scenarios: a 200 answer that carries an inline authentication error; a 401 answer; a
  store that refuses the raw object of the first attempt. Credentials without a refresh
  token, and without both tokens.
\<close>

definition env_inline_auth :: env where
  "env_inline_auth =
     env0\<lparr>http_get := (\<lambda>n. Get_response 200 None (Inline_error (Some ''Invalid Token'')))\<rparr>"

definition env_401 :: env where
  "env_401 = env0\<lparr>http_get := (\<lambda>n. Get_response 401 None Payload)\<rparr>"

definition env_put_fails :: env where
  "env_put_fails = env0\<lparr>s3_raw_ok := (\<lambda>n. n \<noteq> 1)\<rparr>"

definition creds_no_refresh :: credentials where
  "creds_no_refresh = creds_full\<lparr>refresh_token := None\<rparr>"

definition creds_no_token :: credentials where
  "creds_no_token = creds_full\<lparr>access_token := None, refresh_token := None\<rparr>"

text \<open>A refresh endpoint that answers with a new token, a different one each time.\<close>

definition env_refresh_ok :: env where
  "env_refresh_ok =
     env0\<lparr>http_post := (\<lambda>n. Post_response 200
               (Dict_body (Some ''ok'') (Some (if n = 0 then ''tokA'' else ''tokB''))))\<rparr>"

section \<open>The run and its summary\<close>

text \<open>
  A task of \<open>run_once\<close> ends by returning the tuple of \<open>fetch_one\<close> or by raising. The loop
  over \<open>asyncio.as_completed\<close> turns either into one entry of \<open>results\<close>.
\<close>

datatype task_outcome = Task_returned ingest_result | Task_raised string

definition collect :: "task_outcome \<Rightarrow> ingest_result" where
  "collect t =
     (case t of
        Task_returned res \<Rightarrow> res
      | Task_raised msg \<Rightarrow>
          \<lparr>symbol = None, succeeded = False, attempts_used = 0, http_status = None,
           failure_note = Some msg\<rparr>)"

record run_summary =
  success :: int
  failed :: int
  total :: int

text \<open>
  \<open>run_once\<close>: \<open>loaded\<close> is what loading the tickers and the secret gave (an exception
  there leaves \<open>run_once\<close>), \<open>completed\<close> the outcomes of the tasks in the order in which
  they complete.
\<close>

definition run_once :: "string + string list \<Rightarrow> task_outcome list \<Rightarrow> string + run_summary" where
  "run_once loaded completed =
     (case loaded of
        Inl err \<Rightarrow> Inl err
      | Inr tickers \<Rightarrow>
          (let results = map collect completed;
               success = int (length (filter succeeded results));
               failed = int (length results) - success
           in Inr \<lparr>success = success, failed = failed, total = int (length tickers)\<rparr>))"

text \<open>The task of a symbol returned a result with \<open>succeeded = True\<close>.\<close>

definition task_ok :: "task_outcome \<Rightarrow> bool" where
  "task_ok t = (case t of Task_returned res \<Rightarrow> succeeded res | Task_raised msg \<Rightarrow> False)"

datatype handler_exit = Run_raised string | Symbols_failed int

text \<open>
  \<open>lambda_handler\<close> raises when a symbol failed and re-raises what \<open>run_once\<close> raised;
  \<open>main\<close> exits with a status (1 is the interpreter's status for an uncaught exception).
\<close>

definition lambda_handler ::
  "string + string list \<Rightarrow> task_outcome list \<Rightarrow> handler_exit + int \<times> run_summary" where
  "lambda_handler loaded completed =
     (case run_once loaded completed of
        Inl err \<Rightarrow> Inl (Run_raised err)
      | Inr result \<Rightarrow>
          if failed result > 0 then Inl (Symbols_failed (failed result))
          else Inr (200, result))"

definition main :: "string + string list \<Rightarrow> task_outcome list \<Rightarrow> int" where
  "main loaded completed =
     (case run_once loaded completed of
        Inl err \<Rightarrow> 1
      | Inr res \<Rightarrow> if failed res > 0 then 2 else 0)"

section \<open>Floats: rounding\<close>

lemma round_even_of_int [simp]: "round_even (of_int m) = m"
  by (simp add: round_even_def frac_from_def half_even_def)

lemma round_even_0 [simp]: "round_even 0 = 0"
  by (simp add: round_even_def frac_from_def half_even_def)

lemma round_even_bounds: "\<lfloor>x\<rfloor> \<le> round_even x \<and> round_even x \<le> \<lfloor>x\<rfloor> + 1"
  by (simp add: round_even_def frac_from_def half_even_def)

lemma round_even_mono: "x \<le> y \<Longrightarrow> round_even x \<le> round_even y"
proof -
  assume le: "x \<le> y"
  have fl: "\<lfloor>x\<rfloor> \<le> \<lfloor>y\<rfloor>" using le by (rule floor_mono)
  show ?thesis
  proof (cases "\<lfloor>x\<rfloor> = \<lfloor>y\<rfloor>")
    case True
    then have "x - of_int \<lfloor>x\<rfloor> \<le> y - of_int \<lfloor>y\<rfloor>" using le by simp
    then show ?thesis using True
      by (auto simp: round_even_def frac_from_def half_even_def)
  next
    case False
    then have "\<lfloor>x\<rfloor> + 1 \<le> \<lfloor>y\<rfloor>" using fl by simp
    then show ?thesis
      using round_even_bounds [of x] round_even_bounds [of y] by linarith
  qed
qed

lemma round_even_nonneg: "0 \<le> x \<Longrightarrow> 0 \<le> round_even x"
  using round_even_mono [of 0 x] by simp

lemma pow2_pos [simp]: "0 < (2::rat) powi k"
  by (simp add: power_int_def)

lemma bitlen_powi:
  assumes "0 < p"
  shows "2 powi (bitlen p - 1) \<le> (of_int p :: rat) \<and> (of_int p :: rat) < 2 powi bitlen p"
proof -
  have b1: "1 \<le> bitlen p" using assms by (auto simp: bitlen_alt_def)
  from bitlen_bounds [OF assms]
  have i: "2 ^ nat (bitlen p - 1) \<le> p" "p < 2 ^ nat (bitlen p)" by simp_all
  have "(of_int (2 ^ nat (bitlen p - 1)) :: rat) \<le> of_int p"
    using i(1) by (simp only: of_int_le_iff)
  moreover have "(of_int p :: rat) < of_int (2 ^ nat (bitlen p))"
    using i(2) by (simp only: of_int_less_iff)
  ultimately show ?thesis
    using b1 by (simp add: power_int_nonneg_exp)
qed

lemma ilog2_bounds:
  assumes "0 < x"
  shows "2 powi ilog2 x \<le> x \<and> x < 2 powi (ilog2 x + 1)"
proof -
  obtain p q where pq: "quotient_of x = (p, q)"
    by (cases "quotient_of x")
  have q: "0 < q" using pq by (rule quotient_of_denom_pos)
  have x: "x = of_int p / of_int q" using pq by (rule quotient_of_div)
  have p: "0 < p" using assms q x by (simp add: zero_less_divide_iff)
  let ?k = "bitlen p - bitlen q"
  note bp = bitlen_powi [OF p] and bq = bitlen_powi [OF q]
  have qpos: "0 < (of_int q :: rat)" using q by simp
  have up: "x < 2 powi (?k + 1)"
  proof -
    have "of_int p < (2::rat) powi bitlen p" using bp by simp
    also have "\<dots> = 2 powi (?k + 1) * 2 powi (bitlen q - 1)"
      by (simp add: power_int_add [symmetric])
    also have "\<dots> \<le> 2 powi (?k + 1) * of_int q"
      using bq by (simp add: mult_left_mono)
    finally show ?thesis using qpos by (simp add: x pos_divide_less_eq)
  qed
  have lo: "2 powi (?k - 1) < x"
  proof -
    have "2 powi (?k - 1) * of_int q < (2::rat) powi (?k - 1) * 2 powi bitlen q"
      using bq by (simp add: mult_strict_left_mono)
    also have "\<dots> = 2 powi (bitlen p - 1)"
      by (simp add: power_int_add [symmetric])
    also have "\<dots> \<le> of_int p" using bp by simp
    finally show ?thesis using qpos by (simp add: x pos_less_divide_eq)
  qed
  show ?thesis
  proof (cases "2 powi ?k \<le> x")
    case True
    then have "ilog2 x = ?k" by (simp add: ilog2_def ilog2_near_def pq)
    with True up show ?thesis by simp
  next
    case False
    then have "ilog2 x = ?k - 1" by (simp add: ilog2_def ilog2_near_def pq)
    with False lo show ?thesis by simp
  qed
qed

lemma pow2_less_iff [simp]: "(2::rat) powi a < 2 powi b \<longleftrightarrow> a < b"
proof
  assume "(2::rat) powi a < 2 powi b"
  show "a < b"
  proof (rule ccontr)
    assume "\<not> a < b"
    then have "(2::rat) powi b \<le> 2 powi a"
      by (intro power_int_increasing) simp_all
    with \<open>(2::rat) powi a < 2 powi b\<close> show False by simp
  qed
next
  assume "a < b"
  then show "(2::rat) powi a < 2 powi b"
    by (intro power_int_strict_increasing) simp_all
qed

lemma pow2_le_iff [simp]: "(2::rat) powi a \<le> 2 powi b \<longleftrightarrow> a \<le> b"
  using pow2_less_iff [of b a] by (simp only: not_less [symmetric])

lemma ilog2_less: "0 < x \<Longrightarrow> x < 2 powi k \<Longrightarrow> ilog2 x < k"
proof -
  assume x: "0 < x" and "x < 2 powi k"
  have "(2::rat) powi ilog2 x \<le> x" using ilog2_bounds [OF x] ..
  also have "x < 2 powi k" by fact
  finally show ?thesis by (simp only: pow2_less_iff)
qed

lemma ilog2_ge: "0 < x \<Longrightarrow> 2 powi k \<le> x \<Longrightarrow> k \<le> ilog2 x"
proof -
  assume x: "0 < x" and "2 powi k \<le> x"
  note \<open>2 powi k \<le> x\<close>
  also have "x < 2 powi (ilog2 x + 1)" using ilog2_bounds [OF x] ..
  finally have "k < ilog2 x + 1" by (simp only: pow2_less_iff)
  then show ?thesis by simp
qed

lemma ilog2_mono: "0 < x \<Longrightarrow> x \<le> y \<Longrightarrow> ilog2 x \<le> ilog2 y"
  using ilog2_ge [of y "ilog2 x"] ilog2_bounds [of x] by simp

lemma ilog2_pow2 [simp]: "ilog2 (2 powi k) = k"
proof -
  have "ilog2 (2 powi k) < k + 1" by (rule ilog2_less) simp_all
  moreover have "k \<le> ilog2 (2 powi k)" by (rule ilog2_ge) simp_all
  ultimately show ?thesis by simp
qed

lemma round_grid_to_grid: "x \<noteq> 0 \<Longrightarrow> round_grid x = to_grid (expo x) x"
  by (simp add: round_grid_def)

lemma to_grid_mono: "x \<le> y \<Longrightarrow> to_grid e x \<le> to_grid e y"
proof -
  assume "x \<le> y"
  then have "x / 2 powi e \<le> y / 2 powi e"
    by (simp add: divide_right_mono)
  then have "round_even (x / 2 powi e) \<le> round_even (y / 2 powi e)"
    by (rule round_even_mono)
  then show ?thesis
    by (simp add: to_grid_def to_step_def)
qed

lemma to_grid_fix:
  assumes "e \<le> k"
  shows "to_grid e (of_int m * 2 powi k) = of_int m * 2 powi k"
proof -
  have "(2::rat) powi k = 2 powi (k - e) * 2 powi e"
    by (simp add: power_int_add [symmetric])
  moreover have "(2::rat) powi (k - e) = of_int (2 ^ nat (k - e))"
    using assms by (simp add: power_int_nonneg_exp)
  ultimately have "of_int m * (2::rat) powi k = of_int (m * 2 ^ nat (k - e)) * 2 powi e"
    by simp
  then show ?thesis
    unfolding to_grid_def to_step_def by (simp del: of_int_mult of_int_power)
qed

lemma to_grid_nonneg: "0 \<le> x \<Longrightarrow> 0 \<le> to_grid e x"
  by (simp add: to_grid_def to_step_def round_even_nonneg)

lemma round_grid_nonneg: "0 \<le> x \<Longrightarrow> 0 \<le> round_grid x"
  by (cases "x = 0") (simp_all add: round_grid_def to_grid_nonneg)

lemma expo_mono: "0 < x \<Longrightarrow> x \<le> y \<Longrightarrow> expo x \<le> expo y"
  using ilog2_mono [of x y] by (simp add: expo_def)

lemma round_grid_mono_pos:
  assumes "0 < x" "x \<le> y"
  shows "round_grid x \<le> round_grid y"
proof -
  have y: "0 < y" using assms by simp
  have e: "expo x \<le> expo y" using assms by (rule expo_mono)
  show ?thesis
  proof (cases "expo x = expo y")
    case True
    with assms y show ?thesis
      by (simp add: round_grid_to_grid to_grid_mono)
  next
    case False
    with e have lt: "expo x < expo y" by simp
    let ?k = "ilog2 y"
    have "- 1074 \<le> expo x" by (simp add: expo_def)
    with lt have ey: "expo y = ?k - 52"
      using y by (simp add: expo_def abs_of_pos max_def split: if_splits)
    have "ilog2 x - 52 \<le> expo x" by (simp add: expo_def assms(1) abs_of_pos)
    with lt ey have "ilog2 x < ?k" by simp
    then have "ilog2 x + 1 \<le> ?k" by simp
    then have "(2::rat) powi (ilog2 x + 1) \<le> 2 powi ?k" by (simp only: pow2_le_iff)
    moreover have "x < 2 powi (ilog2 x + 1)" using ilog2_bounds [OF assms(1)] ..
    ultimately have xk: "x \<le> 2 powi ?k" by linarith
    have ky: "2 powi ?k \<le> y" using ilog2_bounds [OF y] by simp
    have f1: "to_grid (expo x) (2 powi ?k) = 2 powi ?k"
      using to_grid_fix [of "expo x" ?k 1] lt ey by simp
    have f2: "to_grid (expo y) (2 powi ?k) = 2 powi ?k"
      using to_grid_fix [of "expo y" ?k 1] ey by simp
    have "round_grid x = to_grid (expo x) x"
      using assms(1) by (simp add: round_grid_to_grid)
    also have "\<dots> \<le> to_grid (expo x) (2 powi ?k)"
      using xk by (rule to_grid_mono)
    also have "\<dots> = to_grid (expo y) (2 powi ?k)"
      using f1 f2 by simp
    also have "\<dots> \<le> to_grid (expo y) y"
      using ky by (rule to_grid_mono)
    also have "\<dots> = round_grid y"
      using y by (simp add: round_grid_to_grid)
    finally show ?thesis .
  qed
qed

lemma round_grid_mono:
  assumes "0 \<le> x" "x \<le> y"
  shows "round_grid x \<le> round_grid y"
proof (cases "x = 0")
  case True
  then show ?thesis using assms round_grid_nonneg [of y] by (simp add: round_grid_def)
next
  case False
  with assms show ?thesis by (simp add: round_grid_mono_pos)
qed

lemma expo_ge: "- 1074 \<le> expo x"
  by (simp add: expo_def)

lemma round_grid_pow2:
  assumes "- 1074 \<le> k"
  shows "round_grid (2 powi k) = 2 powi k"
proof -
  have ne: "(2::rat) powi k \<noteq> 0" by simp
  have "expo (2 powi k) \<le> k" using assms by (simp add: expo_def)
  from to_grid_fix [OF this, of 1] show ?thesis
    by (simp add: round_grid_to_grid [OF ne])
qed

lemma round_grid_fix:
  assumes m: "0 < m" "m \<le> 2 ^ 53" and e: "- 1074 \<le> e"
  shows "round_grid (of_int m * 2 powi e) = of_int m * 2 powi e"
proof -
  let ?y = "of_int m * (2::rat) powi e"
  have y: "0 < ?y" using m by simp
  have ne: "?y \<noteq> 0" using m by simp
  show ?thesis
  proof (cases "m = 2 ^ 53")
    case True
    then have yk: "?y = 2 powi (e + 53)"
      by (simp add: power_int_add)
    show ?thesis
      unfolding yk using e by (intro round_grid_pow2) simp
  next
    case False
    with m have "m < 2 ^ 53" by simp
    then have "(of_int m :: rat) < of_int (2 ^ 53)" by (simp only: of_int_less_iff)
    then have "?y < 2 powi 53 * 2 powi e" by simp
    then have "?y < 2 powi (e + 53)" by (simp add: power_int_add)
    with y have "ilog2 ?y < e + 53" by (rule ilog2_less)
    then have "expo ?y \<le> e" using e y by (simp add: expo_def abs_of_pos)
    from to_grid_fix [OF this, of m] show ?thesis
      by (simp only: round_grid_to_grid [OF ne])
  qed
qed

lemma round_grid_idem:
  assumes "0 \<le> x"
  shows "round_grid (round_grid x) = round_grid x"
proof (cases "x = 0")
  case True
  then show ?thesis by (simp add: round_grid_def)
next
  case False
  with assms have x: "0 < x" by simp
  let ?e = "expo x" and ?m = "round_even (x / 2 powi expo x)"
  have rg: "round_grid x = of_int ?m * 2 powi ?e"
    using False by (simp add: round_grid_def to_grid_def to_step_def)
  have "ilog2 x - 52 \<le> ?e" using x by (simp add: expo_def abs_of_pos)
  then have "ilog2 x + 1 \<le> ?e + 53" by simp
  then have "(2::rat) powi (ilog2 x + 1) \<le> 2 powi (?e + 53)" by (simp only: pow2_le_iff)
  moreover have "x < 2 powi (ilog2 x + 1)" using ilog2_bounds [OF x] ..
  ultimately have "x \<le> 2 powi 53 * 2 powi ?e" by (simp add: power_int_add)
  then have "x / 2 powi ?e \<le> of_int (2 ^ 53)"
    by (simp add: pos_divide_le_eq)
  from round_even_mono [OF this] have up: "?m \<le> 2 ^ 53" by (simp only: round_even_of_int)
  have lo: "0 \<le> ?m" using x by (intro round_even_nonneg) simp
  show ?thesis
  proof (cases "?m = 0")
    case True
    then have "round_grid x = 0" by (simp add: rg)
    then show ?thesis by (simp add: round_grid_def)
  next
    case False
    with lo have "0 < ?m" by simp
    from round_grid_fix [OF this up expo_ge] show ?thesis by (simp add: rg)
  qed
qed

lemma round64_not_neg: "0 \<le> x \<Longrightarrow> not_neg (round64 x)"
  using round_grid_nonneg [of x] by (simp add: round64_def overflow_def)

lemma fadd_not_neg: "not_neg a \<Longrightarrow> not_neg b \<Longrightarrow> not_neg (fadd a b)"
  by (cases a; cases b) (simp_all add: round64_not_neg)

lemma fmul_not_neg: "not_neg a \<Longrightarrow> not_neg b \<Longrightarrow> not_neg (fmul a b)"
  by (cases a; cases b) (simp_all add: round64_not_neg signed_inf_def)

lemma py_min_ok:
  assumes "not_neg v" "0 \<le> c"
  shows "\<exists>t. py_min (Finite c) v = Finite t \<and> 0 \<le> t \<and> t \<le> c"
  using assms by (cases v) (auto simp: py_min_def)

lemma round64_below:
  assumes "0 \<le> x" "x \<le> c" "round_grid c = c" "c < 2 ^ 1024"
  shows "\<exists>u. round64 x = Finite u \<and> 0 \<le> u \<and> u \<le> c"
proof -
  have lo: "0 \<le> round_grid x" using assms(1) by (rule round_grid_nonneg)
  have "round_grid x \<le> round_grid c" using assms(1,2) by (rule round_grid_mono)
  then have up: "round_grid x \<le> c" using assms(3) by simp
  with lo assms(4) show ?thesis
    by (simp add: round64_def overflow_def)
qed

lemma refill_fields [simp]:
  "rate (refill now b) = rate b" "capacity (refill now b) = capacity b"
  "last_tb (refill now b) = now"
  by (simp_all add: refill_def Let_def)

lemma refill_ok:
  assumes "bucket_ok b" "last_tb b = Finite l" "l \<le> now"
  shows "bucket_ok (refill (Finite now) b)"
proof -
  from assms(1,2) obtain r c t where
    f: "rate b = Finite r" "capacity b = Finite c" "tokens b = Finite t"
    and ok: "0 \<le> r" "round_grid c = c" "c < 2 ^ 1024" "0 \<le> t" "t \<le> c"
    by (auto simp: bucket_ok_def split: float64.splits)
  have "not_neg (fsub (Finite now) (Finite l))"
    using assms(3) by (simp add: fsub_def round64_not_neg)
  then have "not_neg (fmul (fsub (Finite now) (Finite l)) (Finite r))"
    using ok(1) by (intro fmul_not_neg) simp_all
  then have "not_neg (fadd (Finite t) (fmul (fsub (Finite now) (Finite l)) (Finite r)))"
    using ok(4) by (intro fadd_not_neg) simp_all
  from py_min_ok [OF this, of c] ok obtain u where
    "py_min (Finite c) (fadd (Finite t) (fmul (fsub (Finite now) (Finite l)) (Finite r))) = Finite u"
    "0 \<le> u" "u \<le> c"
    by auto
  with f ok assms(2) show ?thesis
    by (simp add: bucket_ok_def refill_def Let_def)
qed

lemma consume_check_fields [simp]:
  "rate (snd (consume_check a now b)) = rate b"
  "capacity (snd (consume_check a now b)) = capacity b"
  "last_tb (snd (consume_check a now b)) = now"
  by (simp_all add: consume_check_def Let_def split: sum.splits)

lemma consume_check_ok:
  assumes "bucket_ok b" "last_tb b = Finite l" "l \<le> now" "0 \<le> a"
  shows "bucket_ok (snd (consume_check (Finite a) (Finite now) b))"
proof -
  let ?b1 = "refill (Finite now) b"
  have r: "bucket_ok ?b1" using assms(1-3) by (rule refill_ok)
  then obtain rt c t where
    f: "rate ?b1 = Finite rt" "capacity ?b1 = Finite c" "tokens ?b1 = Finite t"
       "last_tb ?b1 = Finite now"
    and ok: "0 \<le> rt" "round_grid c = c" "c < 2 ^ 1024" "0 \<le> t" "t \<le> c"
    by (auto simp: bucket_ok_def split: float64.splits)
  show ?thesis
  proof (cases "fge (tokens ?b1) (Finite a)")
    case False
    with r show ?thesis
      by (simp add: consume_check_def Let_def split: sum.splits)
  next
    case True
    then have "a \<le> t" using f by (simp add: fge_def)
    then have "0 \<le> t - a" "t - a \<le> c" using assms(4) ok by simp_all
    from round64_below [OF this ok(2,3)] obtain u where
      "round64 (t - a) = Finite u" "0 \<le> u" "u \<le> c" by auto
    with True f ok show ?thesis
      by (simp add: consume_check_def Let_def bucket_ok_def fsub_def)
  qed
qed

lemma bucket_ok_in_range: "bucket_ok b \<Longrightarrow> in_range (capacity b) (tokens b)"
  by (auto simp: bucket_ok_def in_range_def split: float64.splits)

lemma tokens_trace_ok:
  "bucket_ok b \<Longrightarrow> last_tb b = Finite l \<Longrightarrow> sorted (l # nows) \<Longrightarrow>
   \<forall>t \<in> set (tokens_trace (map Finite nows) b). in_range (capacity b) t"
proof (induction nows arbitrary: b l)
  case Nil
  then show ?case by simp
next
  case (Cons now nows)
  let ?b' = "snd (consume_check (Finite 1) (Finite now) b)"
  from Cons.prems have le: "l \<le> now" by simp
  have r: "bucket_ok (refill (Finite now) b)"
    using Cons.prems(1,2) le by (rule refill_ok)
  have c: "bucket_ok ?b'"
    using Cons.prems(1,2) le by (rule consume_check_ok) simp
  have s: "sorted (now # nows)"
    using Cons.prems(3) by simp
  have "\<forall>t \<in> set (tokens_trace (map Finite nows) ?b'). in_range (capacity b) t"
    using Cons.IH [OF c _ s] by simp
  then show ?case
    using bucket_ok_in_range [OF r] bucket_ok_in_range [OF c] by simp
qed

text \<open>A call of \<open>consume\<close>, however many passes it takes, keeps the bucket well-formed.\<close>

lemma consume_ok:
  "bucket_ok b \<Longrightarrow> last_tb b = Finite l \<Longrightarrow> sorted (l # nows) \<Longrightarrow> 0 \<le> a \<Longrightarrow>
   bucket_ok (snd (consume (Finite a) (map Finite nows) b))"
proof (induction nows arbitrary: b l)
  case Nil
  then show ?case by simp
next
  case (Cons now nows)
  let ?b' = "snd (consume_check (Finite a) (Finite now) b)"
  from Cons.prems have le: "l \<le> now" by simp
  have c: "bucket_ok ?b'"
    using Cons.prems(1,2) le Cons.prems(4) by (rule consume_check_ok)
  have s: "sorted (now # nows)"
    using Cons.prems(3) by simp
  have "bucket_ok (snd (consume (Finite a) (map Finite nows) ?b'))"
    using Cons.IH [OF c _ s Cons.prems(4)] by simp
  with c show ?case
    by (cases "consume_check (Finite a) (Finite now) b")
      (auto split: sum.splits consume_step.splits)
qed

text \<open>With a finite rate that is not zero a pass never raises: consuming only delays.\<close>

lemma consume_check_no_error:
  "rate b = Finite r \<Longrightarrow> r \<noteq> 0 \<Longrightarrow> fst (consume_check a now b) \<noteq> Inl err"
  by (auto simp: consume_check_def Let_def split: float64.splits)

lemma AsyncTokenBucket_ok:
  assumes "AsyncTokenBucket r cap (Finite now0) = Inr b" "0 \<le> r" "0 \<le> cap"
  shows "bucket_ok b \<and> last_tb b = Finite now0"
proof -
  from assms(1) obtain rt c where
    rc: "round64 r = Finite rt" "round64 cap = Finite c"
    and b: "b = \<lparr>rate = Finite rt, capacity = Finite c, tokens = Finite c, last_tb = Finite now0\<rparr>"
    by (auto simp: AsyncTokenBucket_def py_float_def split: float64.splits sum.splits)
  have rt: "rt = round_grid r" "0 \<le> rt"
    using rc(1) round_grid_nonneg [OF assms(2)]
    by (auto simp: round64_def overflow_def split: if_splits)
  have c: "c = round_grid cap" "c < 2 ^ 1024"
    using rc(2) by (auto simp: round64_def overflow_def split: if_splits)
  have "round_grid c = c" "0 \<le> c"
    using c(1) round_grid_idem [OF assms(3)] round_grid_nonneg [OF assms(3)] by simp_all
  with rt c show ?thesis
    by (simp add: b bucket_ok_def)
qed

text \<open>The roundings that the concrete runs below need.\<close>

lemma round_grid_values:
  "round_grid 1 = 1" "round_grid 2 = 2" "round_grid 3 = 3" "round_grid 9 = 9"
  "round_grid 20 = 20" "round_grid (- 1) = - 1" "round_grid (- 2) = - 2"
  "round_grid (1 / 3) = 6004799503160661 / 18014398509481984"
  "round_grid (18014398509481983 / 18014398509481984) = 1"
  by code_simp+

lemma round64_values:
  "round64 0 = Finite 0"
  "round64 1 = Finite 1" "round64 2 = Finite 2" "round64 3 = Finite 3" "round64 9 = Finite 9"
  "round64 20 = Finite 20" "round64 (- 1) = Finite (- 1)" "round64 (- 2) = Finite (- 2)"
  "round64 (1 / 3) = Finite (6004799503160661 / 18014398509481984)"
  "round64 (18014398509481983 / 18014398509481984) = Finite 1"
  by (simp_all add: round64_def overflow_def round_grid_values) (simp add: round_grid_def)

lemmas bucket_defs =
  AsyncTokenBucket_def py_float_def refill_def consume_check_def fsub_def fge_def py_min_def
  in_range_def Let_def

text \<open>
  C4, as the code has it. A bucket built by the constructor from a rate and a capacity
  that are not negative, used by unit-demand passes at any non-decreasing readings of
  the monotonic clock, has a token count with \<open>0 <= tokens <= capacity\<close> after every refill
  and after every debit, in the floats of the program.
\<close>

theorem token_bucket_tokens_in_range:
  assumes "AsyncTokenBucket r cap (Finite now0) = Inr b"
    and "0 \<le> r" "0 \<le> cap" "sorted (now0 # nows)"
  shows "\<forall>t \<in> set (tokens_trace (map Finite nows) b). in_range (capacity b) t"
  using AsyncTokenBucket_ok [OF assms(1-3)] assms(4) tokens_trace_ok by blast

theorem token_bucket_tokens_in_range_witness:
  "AsyncTokenBucket 9 9 (Finite 0) =
     Inr \<lparr>rate = Finite 9, capacity = Finite 9, tokens = Finite 9, last_tb = Finite 0\<rparr>
   \<and> list_all (in_range (Finite 9))
        (tokens_trace (map Finite [0, 1 / 10, 1 / 10, 2])
           \<lparr>rate = Finite 9, capacity = Finite 9, tokens = Finite 9, last_tb = Finite 0\<rparr>)"
proof -
  let ?b = "\<lparr>rate = Finite 9, capacity = Finite 9, tokens = Finite 9, last_tb = Finite 0\<rparr>"
  have c: "AsyncTokenBucket 9 9 (Finite 0) = Inr ?b"
    by (simp add: bucket_defs round64_values)
  have "\<forall>t \<in> set (tokens_trace (map Finite [0, 1 / 10, 1 / 10, 2]) ?b). in_range (capacity ?b) t"
    by (rule token_bucket_tokens_in_range [OF c]) simp_all
  then show ?thesis
    using c by (simp add: list_all_iff)
qed

text \<open>
  The claim as stated fails: nothing in the code rejects a negative rate or capacity.
  With \<open>MAX_PER_SEC = -1\<close>, \<open>run_once\<close> builds the per-second bucket with rate and capacity
  \<open>-1.0\<close>; its token count is \<open>-1.0\<close> from the start and after the first pass.
\<close>

theorem negative_capacity_negative_tokens:
  "AsyncTokenBucket (- 1) (- 1) (Finite 0) =
     Inr \<lparr>rate = Finite (- 1), capacity = Finite (- 1), tokens = Finite (- 1),
          last_tb = Finite 0\<rparr>
   \<and> tokens_trace [Finite 0]
       \<lparr>rate = Finite (- 1), capacity = Finite (- 1), tokens = Finite (- 1),
        last_tb = Finite 0\<rparr> = [Finite (- 1), Finite (- 1)]
   \<and> \<not> in_range (Finite (- 1)) (Finite (- 1))"
  by (simp add: bucket_defs round64_values)

text \<open>
  Rounding decides grants. For the per-minute bucket of \<open>MAX_PER_MIN = 20\<close> the rate is the
  float nearest to \<open>1/3\<close>, which is below \<open>1/3\<close>; three seconds after an empty bucket the
  product rounds up to \<open>1.0\<close>, and the pass is granted.
\<close>

lemma tb_min_rate:
  "fdiv (Finite 20) (Finite 60) = Inr (Finite (6004799503160661 / 18014398509481984))"
  by (simp add: round64_values)

lemma tb_min_refill_rounds_to_one:
  "consume_check (Finite 1) (Finite 3)
     \<lparr>rate = Finite (6004799503160661 / 18014398509481984), capacity = Finite 20,
      tokens = Finite 0, last_tb = Finite 0\<rparr> =
   (Inr Granted,
    \<lparr>rate = Finite (6004799503160661 / 18014398509481984), capacity = Finite 20,
     tokens = Finite 0, last_tb = Finite 3\<rparr>)"
  by (simp add: bucket_defs round64_values)

section \<open>Traces\<close>

lemma emit_fields [simp]:
  "creds (emit es w) = creds w" "posts (emit es w) = posts w"
  "trace (emit es w) = trace w @ es"
  by (simp_all add: emit_def)

lemma emit_emit [simp]: "emit es (emit ds w) = emit (ds @ es) w"
  by (simp add: emit_def)

lemma dlq_writes_append [simp]: "dlq_writes (xs @ ys) = dlq_writes xs @ dlq_writes ys"
  by (induction xs rule: dlq_writes.induct) simp_all

lemma exchanges_append [simp]: "exchanges (xs @ ys) = exchanges xs @ exchanges ys"
  by (induction xs rule: exchanges.induct) simp_all

text \<open>Only the code after the loop writes dead letters.\<close>

lemma refresh_receive_trace:
  "refresh_receive e n w = (r, w') \<Longrightarrow>
     dlq_writes (trace w') = dlq_writes (trace w) \<and> exchanges (trace w') = exchanges (trace w)
     \<and> posts w' = posts w"
  by (auto simp: refresh_receive_def split: option.splits)

lemma refresh_dlq:
  "refresh_access_token_async e w = (r, w') \<Longrightarrow> dlq_writes (trace w') = dlq_writes (trace w)"
  by (auto simp: refresh_access_token_async_def refresh_send_def
      split: option.splits dest!: refresh_receive_trace)

lemma refresh_snd_dlq [simp]:
  "dlq_writes (trace (snd (refresh_access_token_async e w))) = dlq_writes (trace w)"
  by (rule refresh_dlq [OF surjective_pairing])

lemma on_response_dlq:
  "on_response e symb ts n status ra body w = (st, w') \<Longrightarrow>
     dlq_writes (trace w') = dlq_writes (trace w)"
  by (auto simp: on_response_def Let_def
      split: if_splits hist_body.splits sum.splits prod.splits dest: refresh_dlq)

lemma request_dlq:
  "request e symb ts n w = (st, w') \<Longrightarrow> dlq_writes (trace w') = dlq_writes (trace w)"
  by (auto simp: request_def Let_def split: get_outcome.splits dest!: on_response_dlq)

lemma attempt_body_dlq:
  "attempt_body e symb ts n w = (st, w') \<Longrightarrow> dlq_writes (trace w') = dlq_writes (trace w)"
  by (auto simp: attempt_body_def Let_def split: if_splits dest!: request_dlq)

lemma fetch_loop_dlq:
  "fetch_loop e symb ts a w = (x, w') \<Longrightarrow> dlq_writes (trace w') = dlq_writes (trace w)"
proof (induction e symb ts a w rule: fetch_loop.induct)
  case (1 e symb ts attempt w)
  show ?case
  proof (cases "attempt < MAX_ATTEMPTS e")
    case False
    with "1.prems" show ?thesis by (simp add: fetch_loop.simps)
  next
    case True
    obtain st w1 where ab: "attempt_body e symb ts (attempt + 1) w = (st, w1)"
      by (cases "attempt_body e symb ts (attempt + 1) w")
    have d1: "dlq_writes (trace w1) = dlq_writes (trace w)"
      using ab by (rule attempt_body_dlq)
    show ?thesis
    proof (cases st)
      case Continue
      with True ab "1.prems" have "fetch_loop e symb ts (attempt + 1) w1 = (x, w')"
        by (simp add: fetch_loop.simps [of e symb ts attempt])
      with "1.IH" [OF True ab [symmetric] Continue] d1 show ?thesis by simp
    next
      case Break
      with True ab "1.prems" d1 show ?thesis
        by (simp add: fetch_loop.simps [of e symb ts attempt])
    next
      case (Return r)
      with True ab "1.prems" d1 show ?thesis
        by (simp add: fetch_loop.simps [of e symb ts attempt])
    qed
  qed
qed

lemma fetch_loop_exhausted:
  "MAX_ATTEMPTS e \<le> a \<Longrightarrow> fetch_loop e symb ts a w = (Fell_through a, w)"
  by (simp add: fetch_loop.simps)

text \<open>The definitions that a concrete run unfolds.\<close>

lemmas run_defs =
  fetch_one_def dead_letter_def attempt_body_def request_def on_response_def
  refresh_access_token_async_def refresh_send_def refresh_receive_def refresh_request_def
  refresh_result_def missing_credentials_def truthy_def authorization_def fmt_def
  wait_for_def err_info_def str_int_def params_def emit_def
  s3_key_for_raw_def s3_key_for_dlq_def date_fields_def sym_key_def replace_char_def
  RAW_PREFIX_default_def DLQ_PREFIX_default_def auth_hint_def lower_def lower_char_def
  env0_def creds_full_def start_def Let_def

section \<open>Retries on 429 and 5xx\<close>

text \<open>An attempt answered by 429 or 500 sleeps and continues; the credentials stay.\<close>

lemma attempt_body_transient:
  assumes "\<not> missing_credentials (creds w)"
    and "has_status 429 (http_get e n) \<or> has_status 500 (http_get e n)"
  shows "\<exists>ra. attempt_body e symb ts n w =
           (Continue, emit [Consume_min, Consume_sec, Http_get n (authorization (creds w)),
                            Sleep (wait_for ra n)] w)"
  using assms
  by (auto simp: attempt_body_def request_def on_response_def has_status_def Let_def
      split: get_outcome.splits)

lemma fetch_loop_transient:
  assumes "a \<le> b" "b \<le> MAX_ATTEMPTS e" "\<not> missing_credentials (creds w)"
    and "\<forall>n. a < n \<and> n \<le> b \<longrightarrow> has_status 429 (http_get e n) \<or> has_status 500 (http_get e n)"
  shows "\<exists>w'. fetch_loop e symb ts a w = fetch_loop e symb ts b w' \<and> creds w' = creds w
           \<and> dlq_writes (trace w') = dlq_writes (trace w)"
  using assms
proof (induction b rule: int_ge_induct)
  case base
  show ?case by blast
next
  case (step i)
  from step obtain w1 where
    w1: "fetch_loop e symb ts a w = fetch_loop e symb ts i w1" "creds w1 = creds w"
        "dlq_writes (trace w1) = dlq_writes (trace w)"
    by force
  have "has_status 429 (http_get e (i + 1)) \<or> has_status 500 (http_get e (i + 1))"
    using step.prems(3) step.hyps by simp
  with attempt_body_transient [of w1 e "i + 1" symb ts] step.prems(2) w1(2)
  obtain ra where
    ab: "attempt_body e symb ts (i + 1) w1 =
           (Continue, emit [Consume_min, Consume_sec, Http_get (i + 1) (authorization (creds w1)),
                            Sleep (wait_for ra (i + 1))] w1)"
    by auto
  have "fetch_loop e symb ts i w1 = fetch_loop e symb ts (i + 1)
          (emit [Consume_min, Consume_sec, Http_get (i + 1) (authorization (creds w1)),
                 Sleep (wait_for ra (i + 1))] w1)"
    using step.prems(1) ab by (simp add: fetch_loop.simps [of e symb ts i])
  with w1 show ?case
    by (intro exI [of _ "emit [Consume_min, Consume_sec, Http_get (i + 1) (authorization (creds w1)),
                 Sleep (wait_for ra (i + 1))] w1"]) simp
qed

text \<open>
  C5. With credentials at hand and a store that accepts the object, a symbol whose
  attempts \<open>1..k-1\<close> are answered by 429 and whose attempt \<open>k \<le> MAX_ATTEMPTS\<close> is answered
  by 200 with a payload gets the one result \<open>succeeded = True\<close>, \<open>attempts_used = k\<close>, and
  no dead letter.
\<close>

theorem rate_limited_then_success:
  assumes "1 \<le> k" "k \<le> MAX_ATTEMPTS e"
    and "\<not> missing_credentials (creds w)"
    and "\<forall>n. 1 \<le> n \<and> n < k \<longrightarrow> has_status 429 (http_get e n)"
    and "http_get e k = Get_response 200 ra Payload"
    and "s3_key_for_raw (RAW_PREFIX e) symb ts = Inr key"
    and "s3_raw_ok e k"
  shows "fst (fetch_one e symb ts date w) =
           Inr \<lparr>symbol = Some symb, succeeded = True, attempts_used = k,
                http_status = Some 200, failure_note = None\<rparr>
         \<and> dlq_writes (trace (snd (fetch_one e symb ts date w))) = dlq_writes (trace w)"
proof -
  from fetch_loop_transient [of 0 "k - 1" e w symb ts] assms
  obtain w1 where
    w1: "fetch_loop e symb ts 0 w = fetch_loop e symb ts (k - 1) w1"
        "creds w1 = creds w" "dlq_writes (trace w1) = dlq_writes (trace w)"
    by auto
  have "attempt_body e symb ts k w1 =
          (Return \<lparr>symbol = Some symb, succeeded = True, attempts_used = k,
                   http_status = Some 200, failure_note = None\<rparr>,
           emit [Consume_min, Consume_sec, Http_get k (authorization (creds w1)),
                 Put_raw key True, Metric ''IngestSuccess''] w1)"
    using assms w1(2) by (simp add: attempt_body_def request_def on_response_def Let_def)
  then have "fetch_loop e symb ts (k - 1) w1 =
          (Returned \<lparr>symbol = Some symb, succeeded = True, attempts_used = k,
                   http_status = Some 200, failure_note = None\<rparr>,
           emit [Consume_min, Consume_sec, Http_get k (authorization (creds w1)),
                 Put_raw key True, Metric ''IngestSuccess''] w1)"
    using assms(2) by (simp add: fetch_loop.simps [of e symb ts "k - 1"])
  with w1 show ?thesis
    by (simp add: fetch_one_def)
qed

theorem rate_limited_then_success_witness:
  "has_status 429 (http_get env_429 1) \<and> has_status 429 (http_get env_429 2) \<and>
   fst (fetch_one env_429 ''NSE:SBIN-EQ'' ''2024-01-15T09:30:00Z'' ''2024-01-15''
          (start creds_full)) =
     Inr \<lparr>symbol = Some ''NSE:SBIN-EQ'', succeeded = True, attempts_used = 3,
          http_status = Some 200, failure_note = None\<rparr>"
proof -
  have h: "\<forall>n. 1 \<le> n \<and> n < 3 \<longrightarrow> has_status 429 (http_get env_429 n)"
    by (simp add: env_429_def env0_def has_status_def)
  have g: "http_get env_429 3 = Get_response 200 None Payload"
    by (simp add: env_429_def env0_def)
  have k: "s3_key_for_raw (RAW_PREFIX env_429) ''NSE:SBIN-EQ'' ''2024-01-15T09:30:00Z'' =
      Inr ''ohlcv/raw/symbol=NSE_SBIN-EQ/exchange=NSE/year=2024/month=01/day=15/ingest-2024-01-15T09:30:00Z.json''"
    by (simp add: env_429_def run_defs)
  have "fst (fetch_one env_429 ''NSE:SBIN-EQ'' ''2024-01-15T09:30:00Z'' ''2024-01-15''
          (start creds_full)) =
          Inr \<lparr>symbol = Some ''NSE:SBIN-EQ'', succeeded = True, attempts_used = 3,
               http_status = Some 200, failure_note = None\<rparr>
        \<and> dlq_writes (trace (snd (fetch_one env_429 ''NSE:SBIN-EQ'' ''2024-01-15T09:30:00Z''
            ''2024-01-15'' (start creds_full)))) = dlq_writes (trace (start creds_full))"
    by (rule rate_limited_then_success [OF _ _ _ h g k])
      (simp_all add: env_429_def env0_def start_def creds_full_def missing_credentials_def
        truthy_def)
  moreover have "has_status 429 (http_get env_429 1) \<and> has_status 429 (http_get env_429 2)"
    by (simp add: env_429_def env0_def has_status_def)
  ultimately show ?thesis by simp
qed

text \<open>
  C6. With credentials at hand and a dead-letter put that succeeds, a symbol whose every
  attempt is answered by 500 gets the one result \<open>succeeded = False\<close>,
  \<open>attempts_used = MAX_ATTEMPTS\<close>, and its fetch makes exactly one dead-letter write.
\<close>

theorem always_500_exhausts:
  assumes "0 \<le> MAX_ATTEMPTS e"
    and "\<not> missing_credentials (creds w)"
    and "\<forall>n. 1 \<le> n \<and> n \<le> MAX_ATTEMPTS e \<longrightarrow> has_status 500 (http_get e n)"
    and "s3_key_for_dlq (DLQ_PREFIX e) symb ts = Inr key"
    and "s3_dlq_ok e"
  shows "fst (fetch_one e symb ts date w) =
           Inr \<lparr>symbol = Some symb, succeeded = False, attempts_used = MAX_ATTEMPTS e,
                http_status = None, failure_note = Some (err_info e)\<rparr>
         \<and> dlq_writes (trace (snd (fetch_one e symb ts date w))) =
             dlq_writes (trace w) @
               [(key, \<lparr>dl_symbol = symb, failed_at = now_iso e, attempts = MAX_ATTEMPTS e,
                       note_dl = err_info e, params_sent = params symb date,
                       dlq_reason = err_info e\<rparr>, True)]"
proof -
  from fetch_loop_transient [of 0 "MAX_ATTEMPTS e" e w symb ts] assms
  obtain w1 where
    w1: "fetch_loop e symb ts 0 w = fetch_loop e symb ts (MAX_ATTEMPTS e) w1"
        "dlq_writes (trace w1) = dlq_writes (trace w)"
    by auto
  have "fetch_loop e symb ts (MAX_ATTEMPTS e) w1 = (Fell_through (MAX_ATTEMPTS e), w1)"
    by (simp add: fetch_loop.simps)
  with w1 assms(4,5) show ?thesis
    by (simp add: fetch_one_def dead_letter_def Let_def)
qed

theorem always_500_exhausts_witness:
  "fst (fetch_one env_500 ''NSE:SBIN-EQ'' ''2024-01-15T09:30:00Z'' ''2024-01-15''
          (start creds_full)) =
     Inr \<lparr>symbol = Some ''NSE:SBIN-EQ'', succeeded = False, attempts_used = 5,
          http_status = None, failure_note = Some ''Exhausted 5 attempts''\<rparr>
   \<and> length (dlq_writes (trace (snd (fetch_one env_500 ''NSE:SBIN-EQ''
        ''2024-01-15T09:30:00Z'' ''2024-01-15'' (start creds_full))))) = 1"
proof -
  let ?key = "''ohlcv/errors/symbol=NSE_SBIN-EQ/year=2024/month=01/day/15/failed-2024-01-15T09:30:00Z.json''"
  let ?run = "fetch_one env_500 ''NSE:SBIN-EQ'' ''2024-01-15T09:30:00Z'' ''2024-01-15''
                (start creds_full)"
  have h: "\<forall>n. 1 \<le> n \<and> n \<le> MAX_ATTEMPTS env_500 \<longrightarrow> has_status 500 (http_get env_500 n)"
    by (simp add: env_500_def env0_def has_status_def)
  have k: "s3_key_for_dlq (DLQ_PREFIX env_500) ''NSE:SBIN-EQ'' ''2024-01-15T09:30:00Z'' = Inr ?key"
    by (simp add: env_500_def run_defs)
  have "fst ?run =
          Inr \<lparr>symbol = Some ''NSE:SBIN-EQ'', succeeded = False,
               attempts_used = MAX_ATTEMPTS env_500, http_status = None,
               failure_note = Some (err_info env_500)\<rparr>
        \<and> dlq_writes (trace (snd ?run)) =
            dlq_writes (trace (start creds_full)) @
              [(?key, \<lparr>dl_symbol = ''NSE:SBIN-EQ'', failed_at = now_iso env_500,
                       attempts = MAX_ATTEMPTS env_500, note_dl = err_info env_500,
                       params_sent = params ''NSE:SBIN-EQ'' ''2024-01-15'',
                       dlq_reason = err_info env_500\<rparr>, True)]"
    by (rule always_500_exhausts [OF _ _ h k])
      (simp_all add: env_500_def env0_def start_def creds_full_def missing_credentials_def
        truthy_def)
  then show ?thesis
    by (simp add: env_500_def env0_def err_info_def str_int_def start_def)
qed

section \<open>The dead-letter path\<close>

text \<open>
  C10. Whenever the loop is left by a \<open>break\<close> or by exhaustion, after \<open>a\<close> attempts, and
  \<open>fetch_one\<close> returns a result, the note of the result, the note of the dead letter and
  its \<open>dlq_reason\<close> are the text \<open>Exhausted {MAX_ATTEMPTS} attempts\<close>, and the status of the
  result is \<open>None\<close>, whatever the cause and whatever \<open>a\<close> is.
\<close>

theorem dead_letter_note_fixed:
  assumes "fst (fetch_loop e symb ts 0 w) = Fell_through a"
    and "fst (fetch_one e symb ts date w) = Inr r"
  shows "failure_note r = Some (''Exhausted '' @ str_int (MAX_ATTEMPTS e) @ '' attempts'')
       \<and> http_status r = None \<and> attempts_used r = a
       \<and> (\<exists>key d. dlq_writes (trace (snd (fetch_one e symb ts date w))) =
                     dlq_writes (trace w) @ [(key, d, True)]
                 \<and> note_dl d = ''Exhausted '' @ str_int (MAX_ATTEMPTS e) @ '' attempts''
                 \<and> dlq_reason d = ''Exhausted '' @ str_int (MAX_ATTEMPTS e) @ '' attempts''
                 \<and> attempts d = a)"
proof -
  obtain w1 where l: "fetch_loop e symb ts 0 w = (Fell_through a, w1)"
    using assms(1) by (cases "fetch_loop e symb ts 0 w") simp
  have d: "dlq_writes (trace w1) = dlq_writes (trace w)"
    using l by (rule fetch_loop_dlq)
  have f: "fetch_one e symb ts date w = dead_letter e symb ts date a w1"
    using l by (simp add: fetch_one_def)
  show ?thesis
    using assms(2) d unfolding f
    by (auto simp: dead_letter_def err_info_def Let_def split: sum.splits if_splits)
qed

theorem dead_letter_note_fixed_witness:
  "fst (fetch_loop env_inline_auth ''NSE:SBIN-EQ'' ''2024-01-15T09:30:00Z'' 0 (start creds_full))
     = Fell_through 1
   \<and> fst (fetch_one env_inline_auth ''NSE:SBIN-EQ'' ''2024-01-15T09:30:00Z'' ''2024-01-15''
          (start creds_full)) =
       Inr \<lparr>symbol = Some ''NSE:SBIN-EQ'', succeeded = False, attempts_used = 1,
            http_status = None, failure_note = Some ''Exhausted 5 attempts''\<rparr>
   \<and> fst (fetch_loop env_401 ''NSE:SBIN-EQ'' ''2024-01-15T09:30:00Z'' 0 (start creds_no_refresh))
     = Fell_through 1
   \<and> fst (fetch_one env_401 ''NSE:SBIN-EQ'' ''2024-01-15T09:30:00Z'' ''2024-01-15''
          (start creds_no_refresh)) =
       Inr \<lparr>symbol = Some ''NSE:SBIN-EQ'', succeeded = False, attempts_used = 1,
            http_status = None, failure_note = Some ''Exhausted 5 attempts''\<rparr>
   \<and> fst (fetch_loop env_500 ''NSE:SBIN-EQ'' ''2024-01-15T09:30:00Z'' 0 (start creds_full))
     = Fell_through 5
   \<and> fst (fetch_one env_500 ''NSE:SBIN-EQ'' ''2024-01-15T09:30:00Z'' ''2024-01-15''
          (start creds_full)) =
       Inr \<lparr>symbol = Some ''NSE:SBIN-EQ'', succeeded = False, attempts_used = 5,
            http_status = None, failure_note = Some ''Exhausted 5 attempts''\<rparr>"
proof -
  let ?sy = "''NSE:SBIN-EQ''" and ?ts = "''2024-01-15T09:30:00Z''" and ?d = "''2024-01-15''"
  have l1: "fst (fetch_loop env_inline_auth ?sy ?ts 0 (start creds_full)) = Fell_through 1"
    by (simp add: fetch_loop.simps env_inline_auth_def run_defs)
  obtain r1 where f1: "fst (fetch_one env_inline_auth ?sy ?ts ?d (start creds_full)) = Inr r1"
    by (simp add: fetch_loop.simps env_inline_auth_def run_defs)
  have l2: "fst (fetch_loop env_401 ?sy ?ts 0 (start creds_no_refresh)) = Fell_through 1"
    by (simp add: fetch_loop.simps env_401_def creds_no_refresh_def run_defs)
  obtain r2 where f2: "fst (fetch_one env_401 ?sy ?ts ?d (start creds_no_refresh)) = Inr r2"
    by (simp add: fetch_loop.simps env_401_def creds_no_refresh_def run_defs)
  have l3: "fst (fetch_loop env_500 ?sy ?ts 0 (start creds_full)) = Fell_through 5"
    by (simp add: fetch_loop.simps env_500_def run_defs)
  obtain r3 where f3: "fst (fetch_one env_500 ?sy ?ts ?d (start creds_full)) = Inr r3"
    by (simp add: fetch_loop.simps env_500_def run_defs)
  have n1: "failure_note r1 = Some ''Exhausted 5 attempts'' \<and> http_status r1 = None"
    using dead_letter_note_fixed [OF l1 f1]
    by (simp add: env_inline_auth_def env0_def str_int_def)
  have n2: "failure_note r2 = Some ''Exhausted 5 attempts'' \<and> http_status r2 = None"
    using dead_letter_note_fixed [OF l2 f2]
    by (simp add: env_401_def env0_def str_int_def)
  have n3: "failure_note r3 = Some ''Exhausted 5 attempts'' \<and> http_status r3 = None"
    using dead_letter_note_fixed [OF l3 f3]
    by (simp add: env_500_def env0_def str_int_def)
  have "fst (fetch_one env_inline_auth ?sy ?ts ?d (start creds_full)) =
      Inr \<lparr>symbol = Some ?sy, succeeded = False, attempts_used = 1,
           http_status = None, failure_note = Some ''Exhausted 5 attempts''\<rparr>"
    using n1 f1 by (simp add: fetch_loop.simps env_inline_auth_def run_defs)
  moreover have "fst (fetch_one env_401 ?sy ?ts ?d (start creds_no_refresh)) =
      Inr \<lparr>symbol = Some ?sy, succeeded = False, attempts_used = 1,
           http_status = None, failure_note = Some ''Exhausted 5 attempts''\<rparr>"
    using n2 f2 by (simp add: fetch_loop.simps env_401_def creds_no_refresh_def run_defs)
  moreover have "fst (fetch_one env_500 ?sy ?ts ?d (start creds_full)) =
      Inr \<lparr>symbol = Some ?sy, succeeded = False, attempts_used = 5,
           http_status = None, failure_note = Some ''Exhausted 5 attempts''\<rparr>"
    using n3 f3 by (simp add: fetch_loop.simps env_500_def run_defs)
  ultimately show ?thesis
    using l1 l2 l3 by simp
qed

section \<open>Missing credentials\<close>

text \<open>
  When a credential is missing and no refresh token is there to try, the first attempt
  returns from inside the loop: the code after the loop, which writes the dead letter
  and the failure metric, is not reached.
\<close>

lemma missing_credentials_returns:
  assumes "missing_credentials (creds w)" "\<not> truthy (refresh_token (creds w))"
    and "0 < MAX_ATTEMPTS e"
  shows "fetch_one e symb ts date w =
           (Inr \<lparr>symbol = Some symb, succeeded = False, attempts_used = 1,
                 http_status = None, failure_note = Some ''missing_credentials''\<rparr>,
            emit [Consume_min, Consume_sec] w)"
  using assms
  by (simp add: fetch_one_def fetch_loop.simps [of e symb ts 0] attempt_body_def Let_def)

text \<open>
  C2. The claim fails on the code for missing credentials: at the default configuration,
  with no access token and no refresh token, \<open>fetch_one\<close> returns the failed result
  \<open>missing_credentials\<close> after one attempt and has written no dead letter.
\<close>

theorem missing_credentials_writes_no_dead_letter:
  "fst (fetch_one env0 ''NSE:SBIN-EQ'' ''2024-01-15T09:30:00Z'' ''2024-01-15''
          (start creds_no_token)) =
     Inr \<lparr>symbol = Some ''NSE:SBIN-EQ'', succeeded = False, attempts_used = 1,
          http_status = None, failure_note = Some ''missing_credentials''\<rparr>
   \<and> dlq_writes (trace (snd (fetch_one env0 ''NSE:SBIN-EQ'' ''2024-01-15T09:30:00Z''
        ''2024-01-15'' (start creds_no_token)))) = []"
  by (simp add: fetch_loop.simps creds_no_token_def run_defs)

section \<open>A failed write of the raw object\<close>

text \<open>
  C3, as the code has it. \<open>s3_put_raw\<close> puts once and re-raises; the exception is caught
  by the catch-all handler of the attempt, which sleeps the backoff of the attempt and
  continues: while attempts remain the symbol is fetched and written again, and after
  the last attempt the loop falls through to the dead-letter code.
\<close>

theorem sink_failure_backs_off:
  assumes "\<not> missing_credentials (creds w)"
    and "http_get e n = Get_response 200 ra Payload"
    and "s3_key_for_raw (RAW_PREFIX e) symb ts = Inr key"
    and "\<not> s3_raw_ok e n"
  shows "attempt_body e symb ts n w =
           (Continue, emit [Consume_min, Consume_sec, Http_get n (authorization (creds w)),
                            Put_raw key False, Sleep (Backoff n)] w)
       \<and> (n \<le> MAX_ATTEMPTS e \<longrightarrow>
            fetch_loop e symb ts (n - 1) w =
              fetch_loop e symb ts n
                (emit [Consume_min, Consume_sec, Http_get n (authorization (creds w)),
                       Put_raw key False, Sleep (Backoff n)] w))
       \<and> (n = MAX_ATTEMPTS e \<longrightarrow> fst (fetch_loop e symb ts (n - 1) w) = Fell_through n)"
proof -
  have ab: "attempt_body e symb ts n w =
           (Continue, emit [Consume_min, Consume_sec, Http_get n (authorization (creds w)),
                            Put_raw key False, Sleep (Backoff n)] w)"
    using assms by (simp add: attempt_body_def request_def on_response_def Let_def)
  have step: "n \<le> MAX_ATTEMPTS e \<Longrightarrow>
            fetch_loop e symb ts (n - 1) w =
              fetch_loop e symb ts n
                (emit [Consume_min, Consume_sec, Http_get n (authorization (creds w)),
                       Put_raw key False, Sleep (Backoff n)] w)"
    using ab by (simp add: fetch_loop.simps [of e symb ts "n - 1"])
  have "n = MAX_ATTEMPTS e \<Longrightarrow> fst (fetch_loop e symb ts (n - 1) w) = Fell_through n"
    using step by (simp add: fetch_loop_exhausted)
  with ab step show ?thesis by blast
qed

theorem sink_failure_backs_off_witness:
  "\<not> s3_raw_ok env_put_fails 1 \<and>
   attempt_body env_put_fails ''NSE:SBIN-EQ'' ''2024-01-15T09:30:00Z'' 1 (start creds_full) =
     (Continue,
      emit [Consume_min, Consume_sec, Http_get 1 ''APP-100:tok0'',
            Put_raw ''ohlcv/raw/symbol=NSE_SBIN-EQ/exchange=NSE/year=2024/month=01/day=15/ingest-2024-01-15T09:30:00Z.json'' False,
            Sleep (Backoff 1)] (start creds_full))"
proof -
  have g: "http_get env_put_fails 1 = Get_response 200 None Payload"
    by (simp add: env_put_fails_def env0_def)
  have k: "s3_key_for_raw (RAW_PREFIX env_put_fails) ''NSE:SBIN-EQ'' ''2024-01-15T09:30:00Z'' =
      Inr ''ohlcv/raw/symbol=NSE_SBIN-EQ/exchange=NSE/year=2024/month=01/day=15/ingest-2024-01-15T09:30:00Z.json''"
    by (simp add: env_put_fails_def run_defs)
  have m: "\<not> missing_credentials (creds (start creds_full))"
    by (simp add: start_def creds_full_def missing_credentials_def truthy_def)
  have p: "\<not> s3_raw_ok env_put_fails 1"
    by (simp add: env_put_fails_def env0_def)
  from sink_failure_backs_off [OF m g k p] p show ?thesis
    by (simp add: authorization_def fmt_def start_def creds_full_def)
qed

text \<open>
  The claim as stated fails: the store refuses the object of attempt 1; the worker
  sleeps the backoff of attempt 1, fetches again, and the symbol succeeds on attempt 2.
\<close>

theorem sink_failure_is_retried:
  "fst (fetch_one env_put_fails ''NSE:SBIN-EQ'' ''2024-01-15T09:30:00Z'' ''2024-01-15''
          (start creds_full)) =
     Inr \<lparr>symbol = Some ''NSE:SBIN-EQ'', succeeded = True, attempts_used = 2,
          http_status = Some 200, failure_note = None\<rparr>
   \<and> trace (snd (fetch_one env_put_fails ''NSE:SBIN-EQ'' ''2024-01-15T09:30:00Z''
        ''2024-01-15'' (start creds_full))) =
     [Consume_min, Consume_sec, Http_get 1 ''APP-100:tok0'',
      Put_raw ''ohlcv/raw/symbol=NSE_SBIN-EQ/exchange=NSE/year=2024/month=01/day=15/ingest-2024-01-15T09:30:00Z.json'' False,
      Sleep (Backoff 1),
      Consume_min, Consume_sec, Http_get 2 ''APP-100:tok0'',
      Put_raw ''ohlcv/raw/symbol=NSE_SBIN-EQ/exchange=NSE/year=2024/month=01/day=15/ingest-2024-01-15T09:30:00Z.json'' True,
      Metric ''IngestSuccess'']"
  by (simp add: fetch_loop.simps env_put_fails_def run_defs)

section \<open>The refresh exchange\<close>

lemma refresh_some:
  assumes "refresh_access_token_async e w = (Some tok, w')"
  shows "\<exists>cid rt sec.
           client_id (creds w) = Some cid \<and> cid \<noteq> [] \<and>
           refresh_token (creds w) = Some rt \<and> rt \<noteq> [] \<and>
           app_secret (creds w) = Some sec \<and> sec \<noteq> [] \<and>
           exchanges (trace w') = exchanges (trace w) @
             [\<lparr>grant_type = ''refresh_token'', appIdHash = sha256_hex e (cid @ '':'' @ sec),
               refresh_token_sent = rt\<rparr>] \<and>
           http_post e (posts w) = Post_response 200 (Dict_body (Some ''ok'') (Some tok)) \<and>
           tok \<noteq> [] \<and> access_token (creds w') = Some tok"
  using assms
  by (auto simp: refresh_access_token_async_def refresh_request_def refresh_send_def
      refresh_receive_def refresh_result_def truthy_def
      split: option.splits if_splits post_outcome.splits refresh_body.splits)

lemma refresh_missing:
  assumes "\<not> truthy (client_id (creds w)) \<or> \<not> truthy (refresh_token (creds w))
           \<or> \<not> truthy (app_secret (creds w))"
  shows "refresh_access_token_async e w = (None, w)"
  using assms
  by (auto simp: refresh_access_token_async_def refresh_request_def truthy_def
      split: option.splits)

lemma refresh_not_ok:
  assumes "refresh_result (http_post e (posts w)) = None"
  shows "fst (refresh_access_token_async e w) = None
       \<and> creds (snd (refresh_access_token_async e w)) = creds w"
  using assms
  by (auto simp: refresh_access_token_async_def refresh_send_def refresh_receive_def
      split: option.splits)

lemma refresh_at_most_one_exchange:
  "length (exchanges (trace (snd (refresh_access_token_async e w))))
     \<le> length (exchanges (trace w)) + 1"
  by (auto simp: refresh_access_token_async_def refresh_send_def refresh_receive_def
      split: option.splits)

text \<open>
  C9. \<open>refresh_access_token_async\<close> returns a token only if it sent the body
  \<open>{grant_type: refresh_token, appIdHash: sha256(client_id:app_secret), refresh_token}\<close> and
  the endpoint answered 200 with \<open>s = ok\<close> and that token; it returns \<open>None\<close>, without any
  exchange, when \<open>client_id\<close>, \<open>refresh_token\<close> or \<open>app_secret\<close> is missing, and \<open>None\<close>, with
  the credentials unchanged, when the call raises, the status is not 200, or \<open>s\<close> is not
  \<open>ok\<close>; and one call makes at most one exchange.
\<close>

theorem refresh_contract:
  "(\<forall>tok w'. refresh_access_token_async e w = (Some tok, w') \<longrightarrow>
      (\<exists>cid rt sec.
         client_id (creds w) = Some cid \<and> refresh_token (creds w) = Some rt \<and>
         app_secret (creds w) = Some sec \<and>
         exchanges (trace w') = exchanges (trace w) @
           [\<lparr>grant_type = ''refresh_token'', appIdHash = sha256_hex e (cid @ '':'' @ sec),
             refresh_token_sent = rt\<rparr>] \<and>
         http_post e (posts w) = Post_response 200 (Dict_body (Some ''ok'') (Some tok)) \<and>
         tok \<noteq> [] \<and> access_token (creds w') = Some tok))
   \<and> (\<not> truthy (client_id (creds w)) \<or> \<not> truthy (refresh_token (creds w))
        \<or> \<not> truthy (app_secret (creds w)) \<longrightarrow>
        refresh_access_token_async e w = (None, w))
   \<and> (http_post e (posts w) = Post_raises \<longrightarrow>
        fst (refresh_access_token_async e w) = None
        \<and> creds (snd (refresh_access_token_async e w)) = creds w)
   \<and> (\<forall>status body. http_post e (posts w) = Post_response status body \<and> status \<noteq> 200 \<longrightarrow>
        fst (refresh_access_token_async e w) = None
        \<and> creds (snd (refresh_access_token_async e w)) = creds w)
   \<and> (\<forall>status sv tv. http_post e (posts w) = Post_response status (Dict_body sv tv)
          \<and> sv \<noteq> Some ''ok'' \<longrightarrow>
        fst (refresh_access_token_async e w) = None
        \<and> creds (snd (refresh_access_token_async e w)) = creds w)
   \<and> length (exchanges (trace (snd (refresh_access_token_async e w))))
        \<le> length (exchanges (trace w)) + 1"
proof (intro conjI allI impI)
  fix tok w'
  assume "refresh_access_token_async e w = (Some tok, w')"
  from refresh_some [OF this]
  show "\<exists>cid rt sec.
         client_id (creds w) = Some cid \<and> refresh_token (creds w) = Some rt \<and>
         app_secret (creds w) = Some sec \<and>
         exchanges (trace w') = exchanges (trace w) @
           [\<lparr>grant_type = ''refresh_token'', appIdHash = sha256_hex e (cid @ '':'' @ sec),
             refresh_token_sent = rt\<rparr>] \<and>
         http_post e (posts w) = Post_response 200 (Dict_body (Some ''ok'') (Some tok)) \<and>
         tok \<noteq> [] \<and> access_token (creds w') = Some tok"
    by blast
next
  assume "\<not> truthy (client_id (creds w)) \<or> \<not> truthy (refresh_token (creds w))
          \<or> \<not> truthy (app_secret (creds w))"
  then show "refresh_access_token_async e w = (None, w)"
    by (rule refresh_missing)
next
  assume "http_post e (posts w) = Post_raises"
  then have n: "refresh_result (http_post e (posts w)) = None"
    by (simp add: refresh_result_def)
  from refresh_not_ok [OF n]
  show "fst (refresh_access_token_async e w) = None"
    and "creds (snd (refresh_access_token_async e w)) = creds w"
    by simp_all
next
  fix status body
  assume "http_post e (posts w) = Post_response status body \<and> status \<noteq> 200"
  then have n: "refresh_result (http_post e (posts w)) = None"
    by (simp add: refresh_result_def)
  from refresh_not_ok [OF n]
  show "fst (refresh_access_token_async e w) = None"
    and "creds (snd (refresh_access_token_async e w)) = creds w"
    by simp_all
next
  fix status sv tv
  assume "http_post e (posts w) = Post_response status (Dict_body sv tv) \<and> sv \<noteq> Some ''ok''"
  then have n: "refresh_result (http_post e (posts w)) = None"
    by (simp add: refresh_result_def)
  from refresh_not_ok [OF n]
  show "fst (refresh_access_token_async e w) = None"
    and "creds (snd (refresh_access_token_async e w)) = creds w"
    by simp_all
next
  show "length (exchanges (trace (snd (refresh_access_token_async e w))))
        \<le> length (exchanges (trace w)) + 1"
    by (rule refresh_at_most_one_exchange)
qed

theorem refresh_contract_witness:
  "refresh_access_token_async env_refresh_ok (start creds_full) =
     (Some ''tokA'',
      \<lparr>creds = creds_full\<lparr>access_token := Some ''tokA''\<rparr>, posts = 1,
       trace = [Http_post \<lparr>grant_type = ''refresh_token'',
                           appIdHash = ''sha256(APP-100:s3cr3t)'',
                           refresh_token_sent = ''rt0''\<rparr>,
                Update_secret ''tokA'']\<rparr>)
   \<and> exchanges (trace (snd (refresh_access_token_async env_refresh_ok (start creds_full)))) =
       [\<lparr>grant_type = ''refresh_token'', appIdHash = ''sha256(APP-100:s3cr3t)'',
         refresh_token_sent = ''rt0''\<rparr>]
   \<and> refresh_access_token_async env_refresh_ok (start creds_no_refresh) =
       (None, start creds_no_refresh)
   \<and> fst (refresh_access_token_async env0 (start creds_full)) = None"
proof -
  let ?w = "start creds_full"
  have run: "refresh_access_token_async env_refresh_ok ?w =
     (Some ''tokA'',
      \<lparr>creds = creds_full\<lparr>access_token := Some ''tokA''\<rparr>, posts = 1,
       trace = [Http_post \<lparr>grant_type = ''refresh_token'',
                           appIdHash = ''sha256(APP-100:s3cr3t)'',
                           refresh_token_sent = ''rt0''\<rparr>,
                Update_secret ''tokA'']\<rparr>)"
    by (simp add: env_refresh_ok_def run_defs)
  have c: "client_id (creds ?w) = Some ''APP-100''" "refresh_token (creds ?w) = Some ''rt0''"
    "app_secret (creds ?w) = Some ''s3cr3t''" "exchanges (trace ?w) = []"
    "sha256_hex env_refresh_ok (''APP-100'' @ '':'' @ ''s3cr3t'') = ''sha256(APP-100:s3cr3t)''"
    by (simp_all add: start_def creds_full_def env_refresh_ok_def env0_def)
  have "exchanges (trace (snd (refresh_access_token_async env_refresh_ok ?w))) =
       [\<lparr>grant_type = ''refresh_token'', appIdHash = ''sha256(APP-100:s3cr3t)'',
         refresh_token_sent = ''rt0''\<rparr>]"
    using refresh_contract [of env_refresh_ok ?w] run c by auto
  moreover have "refresh_access_token_async env_refresh_ok (start creds_no_refresh) =
       (None, start creds_no_refresh)"
    using refresh_contract [of env_refresh_ok "start creds_no_refresh"]
    by (simp add: start_def creds_no_refresh_def creds_full_def truthy_def)
  moreover have "fst (refresh_access_token_async env0 ?w) = None"
    using refresh_contract [of env0 ?w] by (simp add: env0_def start_def)
  ultimately show ?thesis
    using run by simp
qed

section \<open>Object keys: the layout\<close>

lemma split_char_none: "sep \<notin> set s \<Longrightarrow> split_char sep s = [s]"
  by (induction s) auto

lemma split_char_first:
  "sep \<notin> set s \<Longrightarrow> split_char sep (s @ sep # t) = s # split_char sep t"
  by (induction s) auto

lemma date_fields_iso:
  assumes "CHR ''-'' \<notin> set yyyy \<union> set mm \<union> set dd" "CHR ''T'' \<notin> set yyyy \<union> set mm \<union> set dd"
  shows "date_fields (yyyy @ ''-'' @ mm @ ''-'' @ dd @ ''T'' @ rest) = Inr (yyyy, mm, dd)"
proof -
  have "CHR ''T'' \<notin> set (yyyy @ ''-'' @ mm @ ''-'' @ dd)"
    using assms by simp
  from split_char_first [OF this, of rest]
  have "split_char CHR ''T'' (yyyy @ ''-'' @ mm @ ''-'' @ dd @ ''T'' @ rest) =
          (yyyy @ ''-'' @ mm @ ''-'' @ dd) # split_char CHR ''T'' rest"
    by simp
  moreover have "split_char CHR ''-'' (yyyy @ ''-'' @ mm @ ''-'' @ dd) = [yyyy, mm, dd]"
    using assms split_char_first [of "CHR ''-''" yyyy "mm @ ''-'' @ dd"]
      split_char_first [of "CHR ''-''" mm dd] split_char_none [of "CHR ''-''" dd]
    by simp
  ultimately show ?thesis
    by (simp add: date_fields_def)
qed

text \<open>
  For a timestamp as \<open>now_iso_utc\<close> prints it, the key of a success has the layout of the
  specification, with the symbol sanitised (\<open>:\<close> and \<open>/\<close> replaced by \<open>_\<close>).
\<close>

lemma s3_key_for_raw_layout:
  assumes "CHR ''-'' \<notin> set yyyy \<union> set mm \<union> set dd" "CHR ''T'' \<notin> set yyyy \<union> set mm \<union> set dd"
  shows "s3_key_for_raw RAW_PREFIX_default symb (yyyy @ ''-'' @ mm @ ''-'' @ dd @ ''T'' @ rest) =
           Inr (''ohlcv/raw/symbol='' @ sym_key symb @ ''/exchange=NSE/year='' @ yyyy
                @ ''/month='' @ mm @ ''/day='' @ dd
                @ ''/ingest-'' @ (yyyy @ ''-'' @ mm @ ''-'' @ dd @ ''T'' @ rest) @ ''.json'')"
  using date_fields_iso [OF assms, of rest]
  by (simp add: s3_key_for_raw_def RAW_PREFIX_default_def)

lemma s3_key_for_dlq_layout:
  assumes "CHR ''-'' \<notin> set yyyy \<union> set mm \<union> set dd" "CHR ''T'' \<notin> set yyyy \<union> set mm \<union> set dd"
  shows "s3_key_for_dlq DLQ_PREFIX_default symb (yyyy @ ''-'' @ mm @ ''-'' @ dd @ ''T'' @ rest) =
           Inr (''ohlcv/errors/symbol='' @ sym_key symb @ ''/year='' @ yyyy
                @ ''/month='' @ mm @ ''/day/'' @ dd
                @ ''/failed-'' @ (yyyy @ ''-'' @ mm @ ''-'' @ dd @ ''T'' @ rest) @ ''.json'')"
  using date_fields_iso [OF assms, of rest]
  by (simp add: s3_key_for_dlq_def DLQ_PREFIX_default_def)

text \<open>
  C8. The key of a success has the layout of the claim; the key of a dead letter does
  not have the segment \<open>day=15\<close>: the code writes \<open>day/15\<close>.
\<close>

theorem dlq_key_has_no_day_partition:
  "s3_key_for_raw RAW_PREFIX_default ''NSE:SBIN-EQ'' ''2024-01-15T09:30:00Z'' =
     Inr ''ohlcv/raw/symbol=NSE_SBIN-EQ/exchange=NSE/year=2024/month=01/day=15/ingest-2024-01-15T09:30:00Z.json''
   \<and> s3_key_for_dlq DLQ_PREFIX_default ''NSE:SBIN-EQ'' ''2024-01-15T09:30:00Z'' =
     Inr ''ohlcv/errors/symbol=NSE_SBIN-EQ/year=2024/month=01/day/15/failed-2024-01-15T09:30:00Z.json''
   \<and> contains ''day=''
         ''ohlcv/raw/symbol=NSE_SBIN-EQ/exchange=NSE/year=2024/month=01/day=15/ingest-2024-01-15T09:30:00Z.json''
   \<and> \<not> contains ''day=''
         ''ohlcv/errors/symbol=NSE_SBIN-EQ/year=2024/month=01/day/15/failed-2024-01-15T09:30:00Z.json''"
  by (simp add: s3_key_for_raw_def s3_key_for_dlq_def date_fields_def sym_key_def
      replace_char_def RAW_PREFIX_default_def DLQ_PREFIX_default_def)

section \<open>The run summary\<close>

text \<open>Counting does not depend on the order in which the tasks complete.\<close>

lemma length_filter_mset:
  "mset xs = mset ys \<Longrightarrow> length (filter P xs) = length (filter P ys)"
proof -
  assume "mset xs = mset ys"
  then have "size (filter_mset P (mset xs)) = size (filter_mset P (mset ys))"
    by simp
  then show ?thesis
    by (simp only: mset_filter [symmetric] size_mset)
qed

lemma succeeded_collect: "succeeded (collect t) = task_ok t"
  by (cases t) (simp_all add: collect_def task_ok_def)

lemma run_once_summary:
  assumes "mset completed = mset outs" "length outs = length tickers"
  shows "run_once (Inr tickers) completed =
           Inr \<lparr>success = int (length (filter task_ok outs)),
                failed = int (length (filter (\<lambda>t. \<not> task_ok t) outs)),
                total = int (length tickers)\<rparr>"
proof -
  have len: "length completed = length outs"
    using assms(1) by (rule mset_eq_length)
  have ok: "length (filter succeeded (map collect completed)) = length (filter task_ok outs)"
    using length_filter_mset [OF assms(1), of task_ok]
    by (simp add: filter_map comp_def succeeded_collect)
  have "length (filter task_ok outs) + length (filter (\<lambda>t. \<not> task_ok t) outs) = length outs"
    by (rule sum_length_filter_compl)
  then have "int (length completed) - int (length (filter task_ok outs)) =
      int (length (filter (\<lambda>t. \<not> task_ok t) outs))"
    using len by simp
  then show ?thesis
    using ok by (simp add: run_once_def Let_def)
qed

text \<open>
  C7. Let \<open>outs\<close> be the outcomes of the tasks, one per ticker, and \<open>completed\<close> the same
  outcomes in the order of completion. Then \<open>run_once\<close> returns the summary in which
  \<open>success\<close> counts the tasks that returned \<open>succeeded = True\<close>, \<open>failed\<close> counts all others
  (returned failed, or raised), and both add up to \<open>total\<close>, the number of tickers; the
  handler raises, and \<open>main\<close> exits with a non-zero status, exactly when \<open>failed > 0\<close>.
\<close>

theorem run_summary_and_failure_signal:
  assumes "mset completed = mset outs" "length outs = length tickers"
  shows "run_once (Inr tickers) completed =
           Inr \<lparr>success = int (length (filter task_ok outs)),
                failed = int (length (filter (\<lambda>t. \<not> task_ok t) outs)),
                total = int (length tickers)\<rparr>
       \<and> length (filter task_ok outs) + length (filter (\<lambda>t. \<not> task_ok t) outs)
           = length tickers
       \<and> ((\<exists>x. lambda_handler (Inr tickers) completed = Inl x)
            \<longleftrightarrow> 0 < length (filter (\<lambda>t. \<not> task_ok t) outs))
       \<and> (main (Inr tickers) completed \<noteq> 0
            \<longleftrightarrow> 0 < length (filter (\<lambda>t. \<not> task_ok t) outs))"
proof -
  note r = run_once_summary [OF assms]
  have "length (filter task_ok outs) + length (filter (\<lambda>t. \<not> task_ok t) outs) = length tickers"
    using sum_length_filter_compl [of task_ok outs] assms(2) by simp
  moreover have "(\<exists>x. lambda_handler (Inr tickers) completed = Inl x)
            \<longleftrightarrow> 0 < length (filter (\<lambda>t. \<not> task_ok t) outs)"
    by (simp add: lambda_handler_def r)
  moreover have "main (Inr tickers) completed \<noteq> 0
            \<longleftrightarrow> 0 < length (filter (\<lambda>t. \<not> task_ok t) outs)"
    by (simp add: main_def r)
  ultimately show ?thesis
    using r by simp
qed

theorem run_summary_and_failure_signal_witness:
  "run_once (Inr [''NSE:A-EQ'', ''NSE:B-EQ'', ''NSE:C-EQ''])
     [Task_raised ''boom'',
      Task_returned \<lparr>symbol = Some ''NSE:A-EQ'', succeeded = True, attempts_used = 1,
                     http_status = Some 200, failure_note = None\<rparr>,
      Task_returned \<lparr>symbol = Some ''NSE:B-EQ'', succeeded = True, attempts_used = 3,
                     http_status = Some 200, failure_note = None\<rparr>]
     = Inr \<lparr>success = 2, failed = 1, total = 3\<rparr>
   \<and> lambda_handler (Inr [''NSE:A-EQ'', ''NSE:B-EQ'', ''NSE:C-EQ''])
     [Task_raised ''boom'',
      Task_returned \<lparr>symbol = Some ''NSE:A-EQ'', succeeded = True, attempts_used = 1,
                     http_status = Some 200, failure_note = None\<rparr>,
      Task_returned \<lparr>symbol = Some ''NSE:B-EQ'', succeeded = True, attempts_used = 3,
                     http_status = Some 200, failure_note = None\<rparr>]
     = Inl (Symbols_failed 1)"
proof -
  let ?a = "Task_returned \<lparr>symbol = Some ''NSE:A-EQ'', succeeded = True, attempts_used = 1,
                     http_status = Some 200, failure_note = None\<rparr>"
  let ?b = "Task_returned \<lparr>symbol = Some ''NSE:B-EQ'', succeeded = True, attempts_used = 3,
                     http_status = Some 200, failure_note = None\<rparr>"
  let ?c = "Task_raised ''boom''"
  let ?tickers = "[''NSE:A-EQ'', ''NSE:B-EQ'', ''NSE:C-EQ'']"
  have m: "mset [?c, ?a, ?b] = mset [?a, ?b, ?c]"
    by simp
  have l: "length [?a, ?b, ?c] = length ?tickers"
    by simp
  have "run_once (Inr ?tickers) [?c, ?a, ?b] = Inr \<lparr>success = 2, failed = 1, total = 3\<rparr>"
    using run_summary_and_failure_signal [OF m l] by (simp add: task_ok_def)
  moreover have "lambda_handler (Inr ?tickers) [?c, ?a, ?b] = Inl (Symbols_failed 1)"
    by (simp add: lambda_handler_def run_once_def collect_def Let_def)
  ultimately show ?thesis by simp
qed

section \<open>Concurrent callers of the refresh\<close>

lemma length_filter_update:
  "i < length xs \<Longrightarrow>
   length (filter P (xs[i := y])) + (if P (xs ! i) then 1 else 0) =
   length (filter P xs) + (if P y then 1 else 0)"
proof (induction xs arbitrary: i)
  case Nil
  then show ?case by simp
next
  case (Cons x xs)
  then show ?case by (cases i) auto
qed

lemma lock_held_iff: "lock_held ps \<longleftrightarrow> 0 < length (filter in_flight ps)"
  by (simp add: lock_held_def list_ex_iff filter_empty_conv)

lemma refresh_request_receive:
  "refresh_receive e n w = (r, w') \<Longrightarrow>
   refresh_request sha (creds w') = refresh_request sha (creds w)"
  by (auto simp: refresh_receive_def refresh_request_def split: option.splits)

text \<open>Resuming any task keeps the invariant.\<close>

lemma step_task_inv:
  assumes "refresh_inv e s"
  shows "refresh_inv e (step_task e i s)"
proof (cases "i < length (phases s)")
  case False
  with assms show ?thesis by (simp add: step_task_def)
next
  case True
  note upd = length_filter_update [OF True]
  show ?thesis
  proof (cases "phases s ! i")
    case Calling
    show ?thesis
    proof (cases "lock_held (phases s)")
      case True
      with Calling assms \<open>i < length (phases s)\<close> show ?thesis
        by (simp add: step_task_def)
    next
      case False
      then have z: "length (filter in_flight (phases s)) = 0"
        by (simp add: lock_held_iff)
      from assms obtain payload where
        p: "refresh_request (sha256_hex e) (creds (shared s)) = Some payload"
        by (auto simp: refresh_inv_def)
      have st: "step_task e i s =
          s\<lparr>phases := (phases s)[i := In_flight (posts (shared s))],
            shared := refresh_send payload (shared s)\<rparr>"
        using Calling False True p by (simp add: step_task_def)
      have a: "length (filter in_flight ((phases s)[i := In_flight (posts (shared s))])) = 1"
        using upd [of in_flight "In_flight (posts (shared s))"] Calling z by simp
      have b: "length (filter (\<lambda>p. p \<noteq> Calling) ((phases s)[i := In_flight (posts (shared s))]))
          = length (filter (\<lambda>p. p \<noteq> Calling) (phases s)) + 1"
        using upd [of "\<lambda>p. p \<noteq> Calling" "In_flight (posts (shared s))"] Calling by simp
      show ?thesis
        using assms a b p unfolding st
        by (simp add: refresh_inv_def refresh_send_def)
    qed
  next
    case (In_flight n)
    obtain r w' where rc: "refresh_receive e n (shared s) = (r, w')"
      by (cases "refresh_receive e n (shared s)")
    have st: "step_task e i s = s\<lparr>phases := (phases s)[i := Done (Some n) r], shared := w'\<rparr>"
      using In_flight True rc by (simp add: step_task_def)
    have a: "length (filter in_flight ((phases s)[i := Done (Some n) r]))
          \<le> length (filter in_flight (phases s))"
      using upd [of in_flight "Done (Some n) r"] In_flight by simp
    have b: "length (filter (\<lambda>p. p \<noteq> Calling) ((phases s)[i := Done (Some n) r]))
          = length (filter (\<lambda>p. p \<noteq> Calling) (phases s))"
      using upd [of "\<lambda>p. p \<noteq> Calling" "Done (Some n) r"] In_flight by simp
    show ?thesis
      using assms a b refresh_receive_trace [OF rc] refresh_request_receive [OF rc]
      unfolding st by (simp add: refresh_inv_def)
  next
    case (Done x r)
    with assms True show ?thesis by (simp add: step_task_def)
  qed
qed

lemma step_task_length [simp]: "length (phases (step_task e i s)) = length (phases s)"
  by (auto simp: step_task_def split: phase.splits option.splits prod.splits)

lemma run_schedule_inv:
  "refresh_inv e s \<Longrightarrow> refresh_inv e (run_schedule e sched s)"
  unfolding run_schedule_def
  by (induction sched arbitrary: s) (simp_all add: step_task_inv)

lemma run_schedule_length [simp]:
  "length (phases (run_schedule e sched s)) = length (phases s)"
  unfolding run_schedule_def
  by (induction sched arbitrary: s) simp_all

lemma callers_inv:
  "refresh_request (sha256_hex e) c \<noteq> None \<Longrightarrow> refresh_inv e (callers k c)"
  by (simp add: refresh_inv_def callers_def)

text \<open>
  A caller that has returned holds the outcome of the exchange it made itself, and the
  exchanges of different callers are different.
\<close>

lemma refresh_receive_fst: "fst (refresh_receive e n w) = refresh_result (http_post e n)"
  by (simp add: refresh_receive_def split: option.splits)

lemma own_ok_mono: "own_ok e p ph \<Longrightarrow> p \<le> q \<Longrightarrow> own_ok e q ph"
  by (cases "(e, p, ph)" rule: own_ok.cases) auto

lemma own_ok_bound: "own_ok e p ph \<Longrightarrow> exchange_of ph = Some n \<Longrightarrow> n < p"
  by (cases "(e, p, ph)" rule: own_ok.cases) auto

lemma step_task_own:
  assumes r: "refresh_inv e s" and o: "own_inv e s"
  shows "own_inv e (step_task e i s)"
proof (cases "i < length (phases s)")
  case False
  with o show ?thesis by (simp add: step_task_def)
next
  case True
  from o have p: "posts (shared s) = length (exchanges (trace (shared s)))"
    and ok: "\<And>j. j < length (phases s) \<Longrightarrow> own_ok e (posts (shared s)) (phases s ! j)"
    and inj: "\<And>j k n. j < length (phases s) \<Longrightarrow> k < length (phases s) \<Longrightarrow>
        exchange_of (phases s ! j) = Some n \<Longrightarrow> exchange_of (phases s ! k) = Some n \<Longrightarrow> j = k"
    by (auto simp: own_inv_def)
  show ?thesis
  proof (cases "phases s ! i")
    case Calling
    show ?thesis
    proof (cases "lock_held (phases s)")
      case True
      with Calling o \<open>i < length (phases s)\<close> show ?thesis
        by (simp add: step_task_def)
    next
      case False
      from r obtain payload where
        pl: "refresh_request (sha256_hex e) (creds (shared s)) = Some payload"
        by (auto simp: refresh_inv_def)
      have st: "step_task e i s =
          s\<lparr>phases := (phases s)[i := In_flight (posts (shared s))],
            shared := refresh_send payload (shared s)\<rparr>"
        using Calling False True pl by (simp add: step_task_def)
      have ps: "posts (refresh_send payload (shared s)) = posts (shared s) + 1"
        "exchanges (trace (refresh_send payload (shared s))) =
           exchanges (trace (shared s)) @ [payload]"
        by (simp_all add: refresh_send_def)
      have ok': "own_ok e (posts (shared s) + 1) (((phases s)[i := In_flight (posts (shared s))]) ! j)"
        if "j < length (phases s)" for j
        using that ok [OF that] True
        by (cases "j = i") (auto intro: own_ok_mono)
      have inj': "j = k"
        if "j < length (phases s)" "k < length (phases s)"
          "exchange_of (((phases s)[i := In_flight (posts (shared s))]) ! j) = Some n"
          "exchange_of (((phases s)[i := In_flight (posts (shared s))]) ! k) = Some n" for j k n
      proof (cases "j = i")
        case ji: True
        show ?thesis
        proof (cases "k = i")
          case True
          with ji show ?thesis by simp
        next
          case False
          with that ji True have "n = posts (shared s)" "exchange_of (phases s ! k) = Some n"
            by simp_all
          with own_ok_bound [OF ok [OF that(2)]] show ?thesis by simp
        qed
      next
        case ji: False
        show ?thesis
        proof (cases "k = i")
          case True
          with that ji \<open>i < length (phases s)\<close>
          have "n = posts (shared s)" "exchange_of (phases s ! j) = Some n"
            by simp_all
          with own_ok_bound [OF ok [OF that(1)]] show ?thesis by simp
        next
          case False
          with that ji show ?thesis by (auto intro: inj)
        qed
      qed
      show ?thesis
        unfolding st using p ps ok' inj'
        by (simp add: own_inv_def)
    qed
  next
    case (In_flight n)
    obtain rr w' where rc: "refresh_receive e n (shared s) = (rr, w')"
      by (cases "refresh_receive e n (shared s)")
    have rr: "rr = refresh_result (http_post e n)"
      using refresh_receive_fst [of e n "shared s"] rc by simp
    have st: "step_task e i s = s\<lparr>phases := (phases s)[i := Done (Some n) rr], shared := w'\<rparr>"
      using In_flight True rc by (simp add: step_task_def)
    note tr = refresh_receive_trace [OF rc]
    have n: "n < posts (shared s)"
      using ok [OF True] In_flight by simp
    have ex: "exchange_of (((phases s)[i := Done (Some n) rr]) ! j) = exchange_of (phases s ! j)"
      if "j < length (phases s)" for j
      using that In_flight by (cases "j = i") simp_all
    have ok': "own_ok e (posts (shared s)) (((phases s)[i := Done (Some n) rr]) ! j)"
      if "j < length (phases s)" for j
      using that ok [OF that] n rr by (cases "j = i") simp_all
    show ?thesis
      unfolding st using p tr ok' ex inj
      by (simp add: own_inv_def)
  next
    case (Done x rr)
    with o True show ?thesis by (simp add: step_task_def)
  qed
qed

lemma step_task_both:
  "refresh_inv e s \<and> own_inv e s \<Longrightarrow>
   refresh_inv e (step_task e i s) \<and> own_inv e (step_task e i s)"
  by (simp add: step_task_inv step_task_own)

lemma run_schedule_both:
  "refresh_inv e s \<and> own_inv e s \<Longrightarrow>
   refresh_inv e (run_schedule e sched s) \<and> own_inv e (run_schedule e sched s)"
  unfolding run_schedule_def
proof (induction sched arbitrary: s)
  case Nil
  then show ?case by simp
next
  case (Cons i sched)
  from step_task_both [OF Cons.prems] Cons.IH show ?case by simp
qed

lemma callers_own: "own_inv e (callers k c)"
  by (simp add: own_inv_def callers_def)

text \<open>A caller alone does what \<open>refresh_access_token_async\<close> does in one piece.\<close>

lemma single_caller:
  "run_schedule e [0, 0] (callers 1 c) =
     \<lparr>phases = [Done (case refresh_request (sha256_hex e) c of None \<Rightarrow> None | Some p \<Rightarrow> Some 0)
                     (fst (refresh_access_token_async e (start c)))],
      shared = snd (refresh_access_token_async e (start c))\<rparr>"
  by (auto simp: run_schedule_def step_task_def callers_def start_def lock_held_def
      refresh_access_token_async_def refresh_send_def emit_def
      split: option.splits prod.splits)

text \<open>
  C1, as the code has it. The lock serialises the refreshes and nothing more: with
  complete refresh credentials, under every schedule of \<open>k\<close> callers, at most one
  exchange is in flight at any time, each caller that got past the lock has made an
  exchange of its own, and once all \<open>k\<close> have returned there have been \<open>k\<close> exchanges;
  every caller that has returned made an exchange, returns what the answer to that
  exchange yields, and no two callers share an exchange.
\<close>

theorem refresh_serialised_one_exchange_each:
  assumes "refresh_request (sha256_hex e) c \<noteq> None"
  shows "length (filter in_flight (phases (run_schedule e sched (callers k c)))) \<le> 1
       \<and> length (exchanges (trace (shared (run_schedule e sched (callers k c))))) =
           length (filter (\<lambda>p. p \<noteq> Calling) (phases (run_schedule e sched (callers k c))))
       \<and> (Calling \<notin> set (phases (run_schedule e sched (callers k c))) \<longrightarrow>
            length (exchanges (trace (shared (run_schedule e sched (callers k c))))) = k)
       \<and> (\<forall>i < k. \<forall>x r. phases (run_schedule e sched (callers k c)) ! i = Done x r \<longrightarrow>
            (\<exists>n. x = Some n
                 \<and> n < length (exchanges (trace (shared (run_schedule e sched (callers k c)))))
                 \<and> r = refresh_result (http_post e n)))
       \<and> (\<forall>i < k. \<forall>j < k. \<forall>n.
            exchange_of (phases (run_schedule e sched (callers k c)) ! i) = Some n
            \<and> exchange_of (phases (run_schedule e sched (callers k c)) ! j) = Some n
            \<longrightarrow> i = j)"
proof -
  let ?s = "run_schedule e sched (callers k c)"
  have "refresh_inv e (callers k c) \<and> own_inv e (callers k c)"
    using assms by (simp add: callers_inv callers_own)
  then have both: "refresh_inv e ?s \<and> own_inv e ?s"
    by (rule run_schedule_both)
  then have inv: "refresh_inv e ?s" and own: "own_inv e ?s"
    by simp_all
  have len: "length (phases ?s) = k"
    by (simp add: callers_def)
  have all: "Calling \<notin> set (phases ?s) \<Longrightarrow> filter (\<lambda>p. p \<noteq> Calling) (phases ?s) = phases ?s"
    by (auto simp: filter_id_conv)
  have a: "length (filter in_flight (phases ?s)) \<le> 1"
    and b: "length (exchanges (trace (shared ?s))) = length (filter (\<lambda>p. p \<noteq> Calling) (phases ?s))"
    using inv by (simp_all add: refresh_inv_def)
  have c: "Calling \<notin> set (phases ?s) \<longrightarrow> length (exchanges (trace (shared ?s))) = k"
    using all b len by auto
  have d: "\<exists>n. x = Some n \<and> n < length (exchanges (trace (shared ?s)))
              \<and> r = refresh_result (http_post e n)"
    if "i < k" "phases ?s ! i = Done x r" for i x r
  proof -
    from own that(1)
    have "own_ok e (length (exchanges (trace (shared ?s)))) (phases ?s ! i)"
      by (auto simp: own_inv_def callers_def)
    with that(2) show ?thesis
      by (cases x) simp_all
  qed
  have f: "i = j"
    if "i < k" "j < k" "exchange_of (phases ?s ! i) = Some n"
      "exchange_of (phases ?s ! j) = Some n" for i j n
    using own that unfolding own_inv_def len by blast
  from a b c d f show ?thesis
    by blast
qed

theorem refresh_serialised_one_exchange_each_witness:
  "phases (run_schedule env_refresh_ok [1, 0, 2, 1, 0, 0, 2, 2] (callers 3 creds_full)) =
     [Done (Some 1) (Some ''tokB''), Done (Some 0) (Some ''tokA''),
      Done (Some 2) (Some ''tokB'')]
   \<and> length (exchanges (trace (shared
        (run_schedule env_refresh_ok [1, 0, 2, 1, 0, 0, 2, 2] (callers 3 creds_full))))) = 3
   \<and> refresh_result (http_post env_refresh_ok 0) = Some ''tokA''
   \<and> refresh_result (http_post env_refresh_ok 1) = Some ''tokB''"
proof -
  let ?s = "run_schedule env_refresh_ok [1, 0, 2, 1, 0, 0, 2, 2] (callers 3 creds_full)"
  have r: "refresh_request (sha256_hex env_refresh_ok) creds_full \<noteq> None"
    by (simp add: refresh_request_def creds_full_def)
  note t = refresh_serialised_one_exchange_each [OF r, of "[1, 0, 2, 1, 0, 0, 2, 2]" 3]
  have p: "phases ?s = [Done (Some 1) (Some ''tokB''), Done (Some 0) (Some ''tokA''),
      Done (Some 2) (Some ''tokB'')]"
    by code_simp
  then have "Calling \<notin> set (phases ?s)"
    by simp
  with t have n: "length (exchanges (trace (shared ?s))) = 3"
    by blast
  note d = t [THEN conjunct2, THEN conjunct2, THEN conjunct2, THEN conjunct1, rule_format]
  have e0: "phases ?s ! 0 = Done (Some 1) (Some ''tokB'')"
    by (subst p) simp
  have e1: "phases ?s ! 1 = Done (Some 0) (Some ''tokA'')"
    by (subst p) simp
  have "Some ''tokB'' = refresh_result (http_post env_refresh_ok 1)"
    using d [OF _ e0] by simp
  moreover have "Some ''tokA'' = refresh_result (http_post env_refresh_ok 0)"
    using d [OF _ e1] by simp
  ultimately have "refresh_result (http_post env_refresh_ok 0) = Some ''tokA''"
    "refresh_result (http_post env_refresh_ok 1) = Some ''tokB''"
    by simp_all
  with p n show ?thesis by simp
qed

text \<open>
  The claim as stated fails. Caller 0 starts a refresh; caller 1 calls while it is in
  flight and waits; when caller 0 has returned, caller 1 makes a second exchange, and the
  two callers return different tokens.
\<close>

theorem waiting_caller_refreshes_again:
  "phases (run_schedule env_refresh_ok [0, 1] (callers 2 creds_full)) = [In_flight 0, Calling]
   \<and> phases (run_schedule env_refresh_ok [0, 1, 0, 1, 1] (callers 2 creds_full)) =
       [Done (Some 0) (Some ''tokA''), Done (Some 1) (Some ''tokB'')]
   \<and> length (exchanges (trace (shared
        (run_schedule env_refresh_ok [0, 1, 0, 1, 1] (callers 2 creds_full))))) = 2"
  by code_simp

end
